theory Spec2Isabelle
  imports Main "HOL-Library.Sublist"
begin

section \<open>The task store of vue-todo-app (stores/taskStore.ts)\<close>

text \<open>
  Modelling conventions.
  \<^item> A JavaScript string is a \<open>string\<close>; each \<open>char\<close> stands for the UTF-16 code unit
    of the same number, so the model covers the strings over U+0000 .. U+00FF.
  \<^item> A task id is an integer-valued \<open>number\<close>, kept as an \<open>int\<close>; where the code
    computes with it the result is rounded as binary64 arithmetic rounds it.
  \<^item> An engine's bound on the number of arguments of a call is a parameter
    (\<open>addTask_on\<close>); other limits of resources (the length of an array, the quota of the
    storage) are outside the model.
  \<^item> The elements of the array \<open>tasks\<close> are distinct objects (they come from
    \<open>JSON.parse\<close>, from the object literal of \<open>addTask\<close> or from the spread of
    \<open>toggleAllTasksCompletion\<close>), so the array is a list of records and a mutation
    of the object returned by \<open>find\<close> is an update of the first matching element.
\<close>

subsection \<open>Data\<close>

record Task =
  id' :: int
  description :: string
  completed :: bool

record store =
  tasks :: "Task list"
  searchTerm :: string
  sortCriteria :: string

subsection \<open>String operations of the platform\<close>

definition isWhiteSpace :: "char \<Rightarrow> bool" where
  \<comment> \<open>WhiteSpace and LineTerminator code units below U+0100: TAB, LF, VT, FF, CR, SP, NBSP.\<close>
  "isWhiteSpace c = (of_char c \<in> {9, 10, 11, 12, 13, 32, 160 :: nat})"

definition trim :: "string \<Rightarrow> string" where
  "trim s = rev (dropWhile isWhiteSpace (rev (dropWhile isWhiteSpace s)))"

definition toLowerCase_char :: "char \<Rightarrow> char" where
  \<comment> \<open>A-Z, and U+00C0 .. U+00DE except the multiplication sign U+00D7, move up by 32.\<close>
  "toLowerCase_char c =
     (let n = (of_char c :: nat)
      in if (65 \<le> n \<and> n \<le> 90) \<or> (192 \<le> n \<and> n \<le> 222 \<and> n \<noteq> 215)
         then char_of (n + 32) else c)"

definition toLowerCase :: "string \<Rightarrow> string" where
  "toLowerCase s = map toLowerCase_char s"

fun includes_str :: "string \<Rightarrow> string \<Rightarrow> bool" where
  \<comment> \<open>\<open>s.includes(t)\<close>: \<open>t\<close> occurs in \<open>s\<close> at some position.\<close>
  "includes_str [] t = (t = [])"
| "includes_str (c # s) t = (prefix t (c # s) \<or> includes_str s t)"

subsection \<open>Numbers and errors of the platform\<close>

datatype error = SyntaxError | RangeError

fun bit_length :: "nat \<Rightarrow> nat" where
  \<comment> \<open>The number of binary digits.\<close>
  "bit_length n = (if n = 0 then 0 else Suc (bit_length (n div 2)))"

declare bit_length.simps [simp del]

definition round_binary64 :: "nat \<Rightarrow> nat" where
  \<comment> \<open>The binary64 value nearest to a natural number: 53 significant binary digits are
      kept, and of two values equally near the one with the even significand is taken.\<close>
  "round_binary64 n =
     (if bit_length n \<le> 53 then n
      else (let q = 2 ^ (bit_length n - 53); m = n div q; r = n mod q
            in if 2 * r < q \<or> (2 * r = q \<and> even m) then m * q else (m + 1) * q))"

definition toNumber :: "int \<Rightarrow> int" where
  "toNumber x =
     (if x < 0 then - int (round_binary64 (nat (- x))) else int (round_binary64 (nat x)))"

definition is_Number :: "int \<Rightarrow> bool" where
  \<comment> \<open>The integer is a value of binary64.\<close>
  "is_Number x = (toNumber x = x \<and> \<bar>x\<bar> < 2 ^ 1024)"

definition Number_increment :: "int \<Rightarrow> int" where
  \<comment> \<open>\<open>m + 1\<close> on a number with an integer value: the exact sum, rounded. The sum of a
      finite number and 1 is below the values that round to \<open>Infinity\<close>.\<close>
  "Number_increment m = toNumber (m + 1)"

subsection \<open>Array operations of the platform\<close>

fun Math_max :: "int list \<Rightarrow> int option" where
  \<comment> \<open>\<open>Math.max(...xs)\<close>; \<open>None\<close> is the \<open>-Infinity\<close> of an empty argument list.\<close>
  "Math_max [] = None"
| "Math_max (x # xs) = Some (fold max xs x)"

fun insertBy :: "('a \<Rightarrow> 'a \<Rightarrow> int) \<Rightarrow> 'a \<Rightarrow> 'a list \<Rightarrow> 'a list" where
  "insertBy cmp x [] = [x]"
| "insertBy cmp x (y # ys) = (if cmp x y \<le> 0 then x # y # ys else y # insertBy cmp x ys)"

definition sort_js :: "('a \<Rightarrow> 'a \<Rightarrow> int) \<Rightarrow> 'a list \<Rightarrow> 'a list" where
  \<comment> \<open>\<open>[...xs].sort(cmp)\<close>: \<open>Array.prototype.sort\<close> is stable, so for a consistent
      comparator its result is the one of a stable insertion sort.\<close>
  "sort_js cmp xs = foldr (insertBy cmp) xs []"

fun update_first :: "('a \<Rightarrow> bool) \<Rightarrow> ('a \<Rightarrow> 'a) \<Rightarrow> 'a list \<Rightarrow> 'a list" where
  \<comment> \<open>\<open>const x = xs.find(p); if (x) { mutate x }\<close>\<close>
  "update_first p f [] = []"
| "update_first p f (x # xs) = (if p x then f x # xs else x # update_first p f xs)"

subsection \<open>Getters\<close>

definition cmp_completedFirst :: "Task \<Rightarrow> Task \<Rightarrow> int" where
  "cmp_completedFirst a b =
     (if completed a \<and> \<not> completed b then - 1
      else if \<not> completed a \<and> completed b then 1
      else 0)"

definition cmp_pendingFirst :: "Task \<Rightarrow> Task \<Rightarrow> int" where
  "cmp_pendingFirst a b =
     (if \<not> completed a \<and> completed b then - 1
      else if completed a \<and> \<not> completed b then 1
      else 0)"

definition allTasks :: "store \<Rightarrow> Task list" where
  "allTasks s =
     (let filtered =
            (if searchTerm s \<noteq> []
             then filter (\<lambda>task. includes_str (toLowerCase (description task))
                                          (toLowerCase (searchTerm s))) (tasks s)
             else tasks s)
      in if sortCriteria s = ''completedFirst'' then sort_js cmp_completedFirst filtered
         else if sortCriteria s = ''pendingFirst'' then sort_js cmp_pendingFirst filtered
         else filtered)"

definition completedTasks :: "store \<Rightarrow> Task list" where
  "completedTasks s = filter (\<lambda>task. completed task) (allTasks s)"

definition pendingTasks :: "store \<Rightarrow> Task list" where
  "pendingTasks s = filter (\<lambda>task. \<not> completed task) (allTasks s)"

subsection \<open>Actions\<close>

definition addTask :: "string \<Rightarrow> store \<Rightarrow> store" where
  "addTask descr s =
     (let newTask = \<lparr> id' = (if length (tasks s) > 0
                             then (case Math_max (map id' (tasks s)) of
                                     Some m \<Rightarrow> Number_increment m
                                   | None \<Rightarrow> 1)
                             else 1),
                      description = descr,
                      completed = False \<rparr>
      in s\<lparr>tasks := tasks s @ [newTask]\<rparr>)"

text \<open>
  ECMAScript puts no bound on the number of arguments of a call; an engine does, and
  raises \<open>RangeError\<close> when the spread \<open>...tasks.value.map(...)\<close> exceeds it. \<open>addTask\<close>
  above is the action as the language defines it; \<open>addTask_on\<close> is the action on an
  engine with the bound \<open>argument_limit\<close>. The spread is evaluated before the \<open>push\<close>, so
  a call that raises leaves the store as it was.
\<close>

definition spread_Math_max :: "nat \<Rightarrow> int list \<Rightarrow> error + int option" where
  "spread_Math_max argument_limit xs =
     (if argument_limit < length xs then Inl RangeError else Inr (Math_max xs))"

definition addTask_on :: "nat \<Rightarrow> string \<Rightarrow> store \<Rightarrow> error + store" where
  "addTask_on argument_limit descr s =
     (if length (tasks s) > 0 then
        (case spread_Math_max argument_limit (map id' (tasks s)) of
           Inl e \<Rightarrow> Inl e
         | Inr r \<Rightarrow>
             Inr (s\<lparr>tasks := tasks s @
                    [\<lparr> id' = (case r of Some m \<Rightarrow> Number_increment m | None \<Rightarrow> 1),
                       description = descr, completed = False \<rparr>]\<rparr>))
      else
        Inr (s\<lparr>tasks := tasks s @ [\<lparr> id' = 1, description = descr, completed = False \<rparr>]\<rparr>))"

definition removeTask :: "int \<Rightarrow> store \<Rightarrow> store" where
  "removeTask i s = s\<lparr>tasks := filter (\<lambda>task. id' task \<noteq> i) (tasks s)\<rparr>"

definition toggleTaskCompletion :: "int \<Rightarrow> store \<Rightarrow> store" where
  "toggleTaskCompletion i s =
     s\<lparr>tasks := update_first (\<lambda>task. id' task = i)
                   (\<lambda>task. task\<lparr>completed := \<not> completed task\<rparr>) (tasks s)\<rparr>"

definition updateTaskDescription :: "int \<Rightarrow> string \<Rightarrow> store \<Rightarrow> store" where
  "updateTaskDescription i newDescription s =
     s\<lparr>tasks := update_first (\<lambda>task. id' task = i)
                   (\<lambda>task. task\<lparr>description := trim newDescription\<rparr>) (tasks s)\<rparr>"

definition setSearchTerm :: "string \<Rightarrow> store \<Rightarrow> store" where
  "setSearchTerm term s = s\<lparr>searchTerm := term\<rparr>"

definition setSortCriteria :: "string \<Rightarrow> store \<Rightarrow> store" where
  "setSortCriteria criteria s = s\<lparr>sortCriteria := criteria\<rparr>"

definition toggleAllTasksCompletion :: "bool \<Rightarrow> store \<Rightarrow> store" where
  "toggleAllTasksCompletion completedStatus s =
     s\<lparr>tasks := map (\<lambda>task. task\<lparr>completed := completedStatus\<rparr>) (tasks s)\<rparr>"

definition clearCompletedTasks :: "store \<Rightarrow> store" where
  "clearCompletedTasks s = s\<lparr>tasks := filter (\<lambda>task. \<not> completed task) (tasks s)\<rparr>"

subsection \<open>Sequences of actions\<close>

datatype action =
    AddTask string
  | RemoveTask int
  | ToggleTaskCompletion int
  | UpdateTaskDescription int string
  | SetSearchTerm string
  | SetSortCriteria string
  | ToggleAllTasksCompletion bool
  | ClearCompletedTasks

fun perform :: "action \<Rightarrow> store \<Rightarrow> store" where
  "perform (AddTask descr) s = addTask descr s"
| "perform (RemoveTask i) s = removeTask i s"
| "perform (ToggleTaskCompletion i) s = toggleTaskCompletion i s"
| "perform (UpdateTaskDescription i newDescription) s = updateTaskDescription i newDescription s"
| "perform (SetSearchTerm term) s = setSearchTerm term s"
| "perform (SetSortCriteria criteria) s = setSortCriteria criteria s"
| "perform (ToggleAllTasksCompletion completedStatus) s = toggleAllTasksCompletion completedStatus s"
| "perform ClearCompletedTasks s = clearCompletedTasks s"

definition empty_store :: store where
  \<comment> \<open>The store over an empty collection, with the initial \<open>ref('')\<close> and \<open>ref('default')\<close>.\<close>
  "empty_store = \<lparr> tasks = [], searchTerm = [], sortCriteria = ''default'' \<rparr>"

definition perform_on :: "nat \<Rightarrow> action \<Rightarrow> store \<Rightarrow> store" where
  \<comment> \<open>An action on an engine with the bound; after a call that raises the store is as
      it was before.\<close>
  "perform_on argument_limit a s =
     (case a of
        AddTask descr \<Rightarrow>
          (case addTask_on argument_limit descr s of Inl e \<Rightarrow> s | Inr s' \<Rightarrow> s')
      | _ \<Rightarrow> perform a s)"

definition store_2_53 :: store where
  \<comment> \<open>A collection whose one id is \<open>2^53\<close>, as the initialisation reads it from the
      stored text \<open>[{"id":9007199254740992,"description":"a","completed":false}]\<close>.\<close>
  "store_2_53 =
     \<lparr> tasks = [\<lparr> id' = 9007199254740992, description = ''a'', completed = False \<rparr>],
       searchTerm = [], sortCriteria = ''default'' \<rparr>"

definition two_tasks :: store where
  "two_tasks =
     \<lparr> tasks = [\<lparr> id' = 7, description = ''a'', completed = False \<rparr>,
                 \<lparr> id' = 3, description = ''b'', completed = True \<rparr>],
       searchTerm = [], sortCriteria = ''default'' \<rparr>"

subsection \<open>The callers of the store (App.vue)\<close>

definition handleAddTask :: "string \<Rightarrow> store \<Rightarrow> store" where
  \<comment> \<open>The argument is the content of the input box \<open>newTaskDescription\<close>; the \<open>alert\<close>
      of the other branch leaves the store as it is.\<close>
  "handleAddTask newTaskDescription s =
     (if trim newTaskDescription \<noteq> [] then addTask newTaskDescription s else s)"

definition saveEdit :: "int option \<Rightarrow> string \<Rightarrow> store \<Rightarrow> store" where
  \<comment> \<open>The arguments are the component's \<open>editingTaskId\<close> (\<open>None\<close> is \<open>null\<close>) and
      \<open>editingTaskDescription\<close>.\<close>
  "saveEdit editingTaskId editingTaskDescription s =
     (case editingTaskId of
        None \<Rightarrow> s
      | Some i \<Rightarrow>
          if trim editingTaskDescription = [] then s
          else updateTaskDescription i editingTaskDescription s)"

inductive ui_reachable :: "store \<Rightarrow> bool" where
  \<comment> \<open>The states the component can drive the store to from the empty collection: the
      two guarded handlers, and the actions and the \<open>v-model\<close> its template binds.\<close>
  ui_init: "ui_reachable empty_store"
| ui_add: "ui_reachable s \<Longrightarrow> ui_reachable (handleAddTask text s)"
| ui_edit: "ui_reachable s \<Longrightarrow> ui_reachable (saveEdit editing text s)"
| ui_remove: "ui_reachable s \<Longrightarrow> ui_reachable (removeTask i s)"
| ui_toggle: "ui_reachable s \<Longrightarrow> ui_reachable (toggleTaskCompletion i s)"
| ui_toggle_all: "ui_reachable s \<Longrightarrow> ui_reachable (toggleAllTasksCompletion b s)"
| ui_clear: "ui_reachable s \<Longrightarrow> ui_reachable (clearCompletedTasks s)"
| ui_search: "ui_reachable s \<Longrightarrow> ui_reachable (setSearchTerm term s)"
| ui_sort: "ui_reachable s \<Longrightarrow> ui_reachable (setSortCriteria criteria s)"

subsection \<open>Reference definitions, following the specification\<close>

definition whitespace_only :: "string \<Rightarrow> bool" where
  \<comment> \<open>Empty, or made of white space only.\<close>
  "whitespace_only s = list_all isWhiteSpace s"

definition equal_ignoring_case :: "string \<Rightarrow> string \<Rightarrow> bool" where
  "equal_ignoring_case u v = list_all2 (\<lambda>a b. toLowerCase_char a = toLowerCase_char b) u v"

definition contains_ignoring_case :: "string \<Rightarrow> string \<Rightarrow> bool" where
  \<comment> \<open>Some contiguous piece of \<open>d\<close> is the term up to letter case.\<close>
  "contains_ignoring_case d term = (\<exists>w. sublist w d \<and> equal_ignoring_case w term)"

definition spec_search :: "string \<Rightarrow> Task list \<Rightarrow> Task list" where
  "spec_search term ts =
     (if term = [] then ts
      else filter (\<lambda>t. contains_ignoring_case (description t) term) ts)"

definition spec_reorder :: "string \<Rightarrow> Task list \<Rightarrow> Task list" where
  \<comment> \<open>A stable partition: each group keeps the order it had.\<close>
  "spec_reorder criterion ts =
     (if criterion = ''completedFirst''
      then filter (\<lambda>t. completed t) ts @ filter (\<lambda>t. \<not> completed t) ts
      else if criterion = ''pendingFirst''
      then filter (\<lambda>t. \<not> completed t) ts @ filter (\<lambda>t. completed t) ts
      else ts)"

definition spec_allTasks :: "store \<Rightarrow> Task list" where
  "spec_allTasks s = spec_reorder (sortCriteria s) (spec_search (searchTerm s) (tasks s))"

definition no_blank :: "store \<Rightarrow> bool" where
  \<comment> \<open>No description of the collection is empty or white space only.\<close>
  "no_blank s = list_all (\<lambda>t. \<not> whitespace_only (description t)) (tasks s)"


section \<open>JSON and the persistence in localStorage\<close>

text \<open>
  \<open>JSON.parse\<close> and \<open>JSON.stringify\<close> belong to the platform. The parser accepts the
  JSON grammar (ECMA-404) on the strings of this development and builds the value;
  \<open>JSON.stringify\<close> is given for the arrays of tasks the store passes to it.
  \<^item> A string value is a list of UTF-16 code units, since an escape \<open>\uXXXX\<close> can name
    any of them.
  \<^item> A number literal whose value is an integer gives \<open>JNumber\<close> of that integer,
    whatever its notation (\<open>100\<close>, \<open>100.0\<close>, \<open>1e2\<close>). This is the value
    \<open>JSON.parse\<close> gives whenever the integer is a value of binary64 (\<open>is_Number\<close>);
    an integer that is not, the platform rounds. A literal with another value is kept as
    it is written (\<open>JDecimal\<close>): fractions are not modelled.
\<close>

subsection \<open>JSON.parse\<close>

datatype json =
    JNull
  | JBool bool
  | JNumber int
  | JDecimal string
  | JString "nat list"
  | JArray "json list"
  | JObject "(nat list \<times> json) list"

abbreviation (input) DQUOTE :: char where "DQUOTE \<equiv> CHR 0x22"
abbreviation (input) BACKSLASH :: char where "BACKSLASH \<equiv> CHR 0x5C"

definition is_json_ws :: "char \<Rightarrow> bool" where
  "is_json_ws c = (of_char c \<in> {9, 10, 13, 32 :: nat})"

definition skip_ws :: "string \<Rightarrow> string" where
  "skip_ws s = dropWhile is_json_ws s"

definition is_digit :: "char \<Rightarrow> bool" where
  "is_digit c = (48 \<le> (of_char c :: nat) \<and> (of_char c :: nat) \<le> 57)"

definition hex_value :: "char \<Rightarrow> nat option" where
  "hex_value c =
     (let n = (of_char c :: nat)
      in if 48 \<le> n \<and> n \<le> 57 then Some (n - 48)
         else if 97 \<le> n \<and> n \<le> 102 then Some (n - 87)
         else if 65 \<le> n \<and> n \<le> 70 then Some (n - 55)
         else None)"

definition unicode_escape :: "char \<Rightarrow> char \<Rightarrow> char \<Rightarrow> char \<Rightarrow> error + nat" where
  \<comment> \<open>The code unit of \<open>\uXXXX\<close>.\<close>
  "unicode_escape a b c d =
     (case (hex_value a, hex_value b, hex_value c, hex_value d) of
        (Some h3, Some h2, Some h1, Some h0) \<Rightarrow> Inr (((h3 * 16 + h2) * 16 + h1) * 16 + h0)
      | _ \<Rightarrow> Inl SyntaxError)"

definition simple_escape :: "char \<Rightarrow> char option" where
  "simple_escape e =
     (if e = DQUOTE then Some DQUOTE
      else if e = BACKSLASH then Some BACKSLASH
      else if e = CHR ''/'' then Some (CHR ''/'')
      else if e = CHR ''b'' then Some (CHR 0x08)
      else if e = CHR ''f'' then Some (CHR 0x0C)
      else if e = CHR ''n'' then Some (CHR 0x0A)
      else if e = CHR ''r'' then Some (CHR 0x0D)
      else if e = CHR ''t'' then Some (CHR 0x09)
      else None)"

definition cons_unit :: "nat \<Rightarrow> error + nat list \<times> string \<Rightarrow> error + nat list \<times> string" where
  "cons_unit u r = (case r of Inl e \<Rightarrow> Inl e | Inr (str, rest) \<Rightarrow> Inr (u # str, rest))"

fun parse_chars :: "string \<Rightarrow> error + nat list \<times> string" where
  \<comment> \<open>The characters of a string literal after the opening quote, up to the closing
      one.\<close>
  "parse_chars [] = Inl SyntaxError"
| "parse_chars (c # cs) =
     (if c = DQUOTE then Inr ([], cs)
      else if c = BACKSLASH then
        (case cs of
           [] \<Rightarrow> Inl SyntaxError
         | e # cs1 \<Rightarrow>
             if e = CHR ''u'' then
               (case cs1 of
                  h3 # h2 # h1 # h0 # cs2 \<Rightarrow>
                    (case unicode_escape h3 h2 h1 h0 of
                       Inl err \<Rightarrow> Inl err
                     | Inr u \<Rightarrow> cons_unit u (parse_chars cs2))
                | _ \<Rightarrow> Inl SyntaxError)
             else
               (case simple_escape e of
                  None \<Rightarrow> Inl SyntaxError
                | Some ch \<Rightarrow> cons_unit (of_char ch) (parse_chars cs1)))
      else if (of_char c :: nat) < 32 then Inl SyntaxError
      else cons_unit (of_char c) (parse_chars cs))"

definition nat_of_digits :: "string \<Rightarrow> nat" where
  "nat_of_digits ds = foldl (\<lambda>a d. 10 * a + (of_char d - 48)) 0 ds"

definition parse_fraction :: "string \<Rightarrow> error + string \<times> string" where
  "parse_fraction s =
     (case s of
        [] \<Rightarrow> Inr ([], s)
      | c # cs \<Rightarrow>
          if c = CHR ''.'' then
            (if takeWhile is_digit cs = [] then Inl SyntaxError
             else Inr (c # takeWhile is_digit cs, dropWhile is_digit cs))
          else Inr ([], s))"

definition parse_sign :: "string \<Rightarrow> string \<times> string" where
  "parse_sign s =
     (case s of
        [] \<Rightarrow> ([], s)
      | c # cs \<Rightarrow> if c = CHR ''+'' \<or> c = CHR ''-'' then ([c], cs) else ([], s))"

definition parse_exponent :: "string \<Rightarrow> error + string \<times> string" where
  "parse_exponent s =
     (case s of
        [] \<Rightarrow> Inr ([], s)
      | c # cs \<Rightarrow>
          if c = CHR ''e'' \<or> c = CHR ''E'' then
            (case parse_sign cs of
               (sg, r) \<Rightarrow>
                 if takeWhile is_digit r = [] then Inl SyntaxError
                 else Inr (c # sg @ takeWhile is_digit r, dropWhile is_digit r))
          else Inr ([], s))"

definition exponent_value :: "string \<Rightarrow> int" where
  \<comment> \<open>The exponent of an exponent part \<open>e\<close>, sign, digits; 0 when the part is missing.\<close>
  "exponent_value ex =
     (case ex of
        [] \<Rightarrow> 0
      | e # r \<Rightarrow>
          (case r of
             [] \<Rightarrow> 0
           | c # ds \<Rightarrow>
               if c = CHR ''-'' then - int (nat_of_digits ds)
               else if c = CHR ''+'' then int (nat_of_digits ds)
               else int (nat_of_digits r)))"

definition literal_integer :: "string \<Rightarrow> string \<Rightarrow> string \<Rightarrow> nat option" where
  \<comment> \<open>The value of the literal with the integer part \<open>ip\<close>, the fraction part \<open>fr\<close>
      (with its point) and the exponent part \<open>ex\<close>, when it is an integer.\<close>
  "literal_integer ip fr ex =
     (let m = nat_of_digits (ip @ tl fr);
          e = exponent_value ex - int (length (tl fr))
      in if 0 \<le> e then Some (m * 10 ^ nat e)
         else if m mod 10 ^ nat (- e) = 0 then Some (m div 10 ^ nat (- e))
         else None)"

definition parse_unsigned :: "bool \<Rightarrow> string \<Rightarrow> error + json \<times> string" where
  "parse_unsigned negative s =
     (case s of
        [] \<Rightarrow> Inl SyntaxError
      | d # ds \<Rightarrow>
          if \<not> is_digit d then Inl SyntaxError
          else
            (case (if d = CHR ''0'' then ([d], ds)
                   else (d # takeWhile is_digit ds, dropWhile is_digit ds)) of
               (ip, s2) \<Rightarrow>
                 (case parse_fraction s2 of
                    Inl e \<Rightarrow> Inl e
                  | Inr (fr, s3) \<Rightarrow>
                      (case parse_exponent s3 of
                         Inl e \<Rightarrow> Inl e
                       | Inr (ex, s4) \<Rightarrow>
                           (case literal_integer ip fr ex of
                              Some n \<Rightarrow>
                                Inr (JNumber (if negative then - int n else int n), s4)
                            | None \<Rightarrow>
                                Inr (JDecimal ((if negative then ''-'' else []) @ ip @ fr @ ex),
                                     s4))))))"

definition parse_number :: "string \<Rightarrow> error + json \<times> string" where
  "parse_number s =
     (case s of
        [] \<Rightarrow> Inl SyntaxError
      | c # cs \<Rightarrow> if c = CHR ''-'' then parse_unsigned True cs else parse_unsigned False s)"

text \<open>
  The three functions of the recursive descent each take the text from the first
  character of what they read and return the rest. The comparisons of lengths only
  serve the termination proof: a value and a string take at least one character, so
  these tests never fail.
\<close>

function parse_value :: "string \<Rightarrow> error + json \<times> string"
  and parse_elements :: "string \<Rightarrow> error + json list \<times> string"
  and parse_members :: "string \<Rightarrow> error + (nat list \<times> json) list \<times> string"
where
  "parse_value s =
     (case s of
        [] \<Rightarrow> Inl SyntaxError
      | c # cs \<Rightarrow>
          if c = DQUOTE then
            (case parse_chars cs of
               Inl e \<Rightarrow> Inl e
             | Inr (str, r) \<Rightarrow> Inr (JString str, r))
          else if c = CHR ''['' then
            (case skip_ws cs of
               [] \<Rightarrow> Inl SyntaxError
             | d # ds \<Rightarrow>
                 if d = CHR '']'' then Inr (JArray [], ds)
                 else
                   (case parse_elements (d # ds) of
                      Inl e \<Rightarrow> Inl e
                    | Inr (vs, r) \<Rightarrow> Inr (JArray vs, r)))
          else if c = CHR ''{'' then
            (case skip_ws cs of
               [] \<Rightarrow> Inl SyntaxError
             | d # ds \<Rightarrow>
                 if d = CHR ''}'' then Inr (JObject [], ds)
                 else
                   (case parse_members (d # ds) of
                      Inl e \<Rightarrow> Inl e
                    | Inr (ms, r) \<Rightarrow> Inr (JObject ms, r)))
          else if take 4 s = ''true'' then Inr (JBool True, drop 4 s)
          else if take 5 s = ''false'' then Inr (JBool False, drop 5 s)
          else if take 4 s = ''null'' then Inr (JNull, drop 4 s)
          else parse_number s)"
| "parse_elements s =
     (case parse_value s of
        Inl e \<Rightarrow> Inl e
      | Inr (v, r) \<Rightarrow>
          if length r < length s then
            (case skip_ws r of
               [] \<Rightarrow> Inl SyntaxError
             | c # cs \<Rightarrow>
                 if c = CHR '','' then
                   (case parse_elements (skip_ws cs) of
                      Inl e \<Rightarrow> Inl e
                    | Inr (vs, r') \<Rightarrow> Inr (v # vs, r'))
                 else if c = CHR '']'' then Inr ([v], cs)
                 else Inl SyntaxError)
          else Inl SyntaxError)"
| "parse_members s =
     (case s of
        [] \<Rightarrow> Inl SyntaxError
      | q # s0 \<Rightarrow>
          if q \<noteq> DQUOTE then Inl SyntaxError
          else
            (case parse_chars s0 of
               Inl e \<Rightarrow> Inl e
             | Inr (k, r0) \<Rightarrow>
                 if length r0 < length s then
                   (case skip_ws r0 of
                      [] \<Rightarrow> Inl SyntaxError
                    | c # r1 \<Rightarrow>
                        if c \<noteq> CHR '':'' then Inl SyntaxError
                        else
                          (case parse_value (skip_ws r1) of
                             Inl e \<Rightarrow> Inl e
                           | Inr (v, r) \<Rightarrow>
                               if length r < length s then
                                 (case skip_ws r of
                                    [] \<Rightarrow> Inl SyntaxError
                                  | d # ds \<Rightarrow>
                                      if d = CHR '','' then
                                        (case parse_members (skip_ws ds) of
                                           Inl e \<Rightarrow> Inl e
                                         | Inr (ms, r') \<Rightarrow> Inr ((k, v) # ms, r'))
                                      else if d = CHR ''}'' then Inr ([(k, v)], ds)
                                      else Inl SyntaxError)
                               else Inl SyntaxError))
                 else Inl SyntaxError))"
  by pat_completeness auto
termination
proof (relation "measure (\<lambda>x. case x of
          Inl s \<Rightarrow> 2 * length s
        | Inr (Inl s) \<Rightarrow> 2 * length s + 1
        | Inr (Inr s) \<Rightarrow> 2 * length s + 1)", goal_cases)
  case 1
  show ?case by simp
next
  case (2 s c cs d ds)
  have "length (skip_ws cs) \<le> length cs" by (simp add: skip_ws_def length_dropWhile_le)
  with 2 show ?case by simp
next
  case (3 s c cs d ds)
  have "length (skip_ws cs) \<le> length cs" by (simp add: skip_ws_def length_dropWhile_le)
  with 3 show ?case by simp
next
  case (4 s)
  show ?case by simp
next
  case (5 s x v r c cs)
  have "length (skip_ws cs) \<le> length cs" "length (skip_ws r) \<le> length r"
    by (simp_all add: skip_ws_def length_dropWhile_le)
  with 5 show ?case by simp
next
  case (6 s q s0 x k r0 c r1)
  have "length (skip_ws r1) \<le> length r1" "length (skip_ws r0) \<le> length r0"
    by (simp_all add: skip_ws_def length_dropWhile_le)
  with 6 show ?case by simp
next
  case (7 s q s0 x k r0 c r1 y v r d ds)
  have "length (skip_ws ds) \<le> length ds" "length (skip_ws r) \<le> length r"
    by (simp_all add: skip_ws_def length_dropWhile_le)
  with 7 show ?case by simp
qed

definition JSON_parse :: "string \<Rightarrow> error + json" where
  "JSON_parse text =
     (case parse_value (skip_ws text) of
        Inl e \<Rightarrow> Inl e
      | Inr (v, r) \<Rightarrow> if skip_ws r = [] then Inr v else Inl SyntaxError)"


declare parse_value.simps [simp del] parse_elements.simps [simp del] parse_members.simps [simp del]

subsection \<open>JSON.stringify on an array of tasks\<close>

definition hex_digit :: "nat \<Rightarrow> char" where
  "hex_digit n = (if n < 10 then char_of (48 + n) else char_of (87 + n))"

definition escape_char :: "char \<Rightarrow> string" where
  "escape_char c =
     (if c = CHR 0x08 then [BACKSLASH, CHR ''b'']
      else if c = CHR 0x09 then [BACKSLASH, CHR ''t'']
      else if c = CHR 0x0A then [BACKSLASH, CHR ''n'']
      else if c = CHR 0x0C then [BACKSLASH, CHR ''f'']
      else if c = CHR 0x0D then [BACKSLASH, CHR ''r'']
      else if c = DQUOTE then [BACKSLASH, DQUOTE]
      else if c = BACKSLASH then [BACKSLASH, BACKSLASH]
      else if (of_char c :: nat) < 32 then
        [BACKSLASH, CHR ''u'', CHR ''0'', CHR ''0'',
         hex_digit (of_char c div 16), hex_digit (of_char c mod 16)]
      else [c])"

definition QuoteJSONString :: "string \<Rightarrow> string" where
  "QuoteJSONString s = DQUOTE # concat (map escape_char s) @ [DQUOTE]"

fun digits :: "nat \<Rightarrow> string" where
  "digits n = (if n < 10 then [char_of (48 + n)] else digits (n div 10) @ [char_of (48 + n mod 10)])"

declare digits.simps [simp del]

definition Number_toString :: "int \<Rightarrow> string" where
  \<comment> \<open>The decimal digits of the integer: what JavaScript writes for an integer of
      magnitude up to \<open>2^53\<close>. For a greater one JavaScript writes the shortest digits
      that are read back as the same number, filled up with zeros.\<close>
  "Number_toString n = (if n < 0 then CHR ''-'' # digits (nat (- n)) else digits (nat n))"

definition stringify_Task :: "Task \<Rightarrow> string" where
  \<open>stringify_Task t =
     ''{"id":'' @ Number_toString (id' t)
     @ '',"description":'' @ QuoteJSONString (description t)
     @ '',"completed":'' @ (if completed t then ''true'' else ''false'')
     @ ''}''\<close>

fun join_commas :: "string list \<Rightarrow> string" where
  "join_commas [] = []"
| "join_commas [x] = x"
| "join_commas (x # y # ys) = x @ CHR '','' # join_commas (y # ys)"

definition JSON_stringify :: "Task list \<Rightarrow> string" where
  "JSON_stringify ts = CHR ''['' # join_commas (map stringify_Task ts) @ '']''"

subsection \<open>The typed reading of a parsed value\<close>

definition units :: "string \<Rightarrow> nat list" where
  \<comment> \<open>The code units of a string of the model.\<close>
  "units str = map of_char str"

definition Task_json :: "Task \<Rightarrow> json" where
  \<comment> \<open>The JavaScript value of a task: an object with the three properties.\<close>
  "Task_json t =
     JObject [(units ''id'', JNumber (id' t)),
              (units ''description'', JString (units (description t))),
              (units ''completed'', JBool (completed t))]"

definition Tasks_json :: "Task list \<Rightarrow> json" where
  "Tasks_json ts = JArray (map Task_json ts)"

definition get_property :: "(nat list \<times> json) list \<Rightarrow> string \<Rightarrow> json option" where
  \<comment> \<open>Of two members with one key the later one is the property.\<close>
  "get_property ms k = map_of (rev ms) (units k)"

fun as_Task :: "json \<Rightarrow> Task option" where
  \<comment> \<open>A description with a code unit above U+00FF is no string of the model.\<close>
  "as_Task (JObject ms) =
     (case (get_property ms ''id'', get_property ms ''description'',
            get_property ms ''completed'') of
        (Some (JNumber n), Some (JString d), Some (JBool b)) \<Rightarrow>
          if list_all (\<lambda>u. u < 256) d
          then Some \<lparr> id' = n, description = map char_of d, completed = b \<rparr>
          else None
      | _ \<Rightarrow> None)"
| "as_Task _ = None"

fun as_Tasks :: "json \<Rightarrow> Task list option" where
  \<comment> \<open>The value as a \<open>Task[]\<close>, when it has that shape.\<close>
  "as_Tasks (JArray vs) = those (map as_Task vs)"
| "as_Tasks _ = None"

subsection \<open>Persistence\<close>

definition useTaskStore_tasks :: "string option \<Rightarrow> error + json" where
  \<comment> \<open>The initial value of \<open>tasks\<close>:
      \<open>JSON.parse(localStorage.getItem('tasks') || '[]')\<close>. The argument is the result of
      \<open>getItem\<close>, \<open>None\<close> for the \<open>null\<close> of a missing key; \<open>null\<close> and the empty string
      are falsy. An \<open>Inl\<close> is the exception that leaves \<open>useTaskStore\<close>.\<close>
  "useTaskStore_tasks item =
     JSON_parse (case item of
                   None \<Rightarrow> ''[]''
                 | Some text \<Rightarrow> if text = [] then ''[]'' else text)"

record world =
  state :: store
  localStorage_tasks :: "string option"
  setItem_calls :: nat

definition watch_callback :: "Task list \<Rightarrow> world \<Rightarrow> world" where
  \<comment> \<open>\<open>localStorage.setItem('tasks', JSON.stringify(newTasks))\<close>; the counter records
      the call.\<close>
  "watch_callback newTasks w =
     w\<lparr> localStorage_tasks := Some (JSON_stringify newTasks),
        setItem_calls := setItem_calls w + 1 \<rparr>"

fun triggers_watch :: "action \<Rightarrow> store \<Rightarrow> bool" where
  \<comment> \<open>Whether the action writes to the reactive \<open>tasks\<close>, which is what makes the deep
      watcher run: \<open>push\<close> and an assignment to \<open>tasks.value\<close> always do, an assignment
      to a property of a task does when the task was found and the value is a new one.\<close>
  "triggers_watch (AddTask descr) s = True"
| "triggers_watch (RemoveTask i) s = True"
| "triggers_watch (ToggleTaskCompletion i) s =
     (case find (\<lambda>task. id' task = i) (tasks s) of None \<Rightarrow> False | Some task \<Rightarrow> True)"
| "triggers_watch (UpdateTaskDescription i newDescription) s =
     (case find (\<lambda>task. id' task = i) (tasks s) of
        None \<Rightarrow> False
      | Some task \<Rightarrow> description task \<noteq> trim newDescription)"
| "triggers_watch (SetSearchTerm term) s = False"
| "triggers_watch (SetSortCriteria criteria) s = False"
| "triggers_watch (ToggleAllTasksCompletion completedStatus) s = True"
| "triggers_watch ClearCompletedTasks s = True"

definition dispatch :: "action \<Rightarrow> world \<Rightarrow> world" where
  \<comment> \<open>One call of an action, followed by the run of the watcher it scheduled.\<close>
  "dispatch a w =
     (let s = perform a (state w)
      in if triggers_watch a (state w)
         then watch_callback (tasks s) (w\<lparr>state := s\<rparr>)
         else w\<lparr>state := s\<rparr>)"

definition fresh_world :: world where
  \<comment> \<open>A new store in a browser that holds no \<open>tasks\<close> item.\<close>
  "fresh_world = \<lparr> state = empty_store, localStorage_tasks = None, setItem_calls = 0 \<rparr>"

subsection \<open>Reference definitions: the texts of JSON\<close>

text \<open>
  The grammar of ECMA-404, as relations between a text and the value it denotes. The
  numbers are those whose value is an integer of binary64; other numbers are outside
  these relations.
\<close>

definition ws_text :: "string \<Rightarrow> bool" where
  "ws_text w = list_all is_json_ws w"

inductive chars_text :: "string \<Rightarrow> nat list \<Rightarrow> bool" where
  \<comment> \<open>The characters between the quotes of a string literal, and their code units.\<close>
  chars_end: "chars_text [] []"
| chars_plain:
    "c \<noteq> DQUOTE \<Longrightarrow> c \<noteq> BACKSLASH \<Longrightarrow> 32 \<le> (of_char c :: nat) \<Longrightarrow> chars_text s us \<Longrightarrow>
     chars_text (c # s) (of_char c # us)"
| chars_escape:
    "simple_escape e = Some ch \<Longrightarrow> chars_text s us \<Longrightarrow>
     chars_text (BACKSLASH # e # s) (of_char ch # us)"
| chars_unicode:
    "hex_value a = Some h3 \<Longrightarrow> hex_value b = Some h2 \<Longrightarrow> hex_value c = Some h1 \<Longrightarrow>
     hex_value d = Some h0 \<Longrightarrow> chars_text s us \<Longrightarrow>
     chars_text (BACKSLASH # CHR ''u'' # a # b # c # d # s)
       ((((h3 * 16 + h2) * 16 + h1) * 16 + h0) # us)"

definition digits_text :: "string \<Rightarrow> bool" where
  "digits_text ds = (ds \<noteq> [] \<and> list_all is_digit ds)"

definition int_part_text :: "string \<Rightarrow> bool" where
  \<comment> \<open>\<open>0\<close>, or digits that do not start with \<open>0\<close>.\<close>
  "int_part_text ip = (ip = ''0'' \<or> (digits_text ip \<and> hd ip \<noteq> CHR ''0''))"

definition fraction_text :: "string \<Rightarrow> bool" where
  \<comment> \<open>Nothing, or a point and digits.\<close>
  "fraction_text fr = (fr = [] \<or> (hd fr = CHR ''.'' \<and> digits_text (tl fr)))"

definition exponent_text :: "string \<Rightarrow> bool" where
  \<comment> \<open>Nothing, or \<open>e\<close> or \<open>E\<close>, an optional sign, and digits.\<close>
  "exponent_text ex =
     (ex = [] \<or>
      ((hd ex = CHR ''e'' \<or> hd ex = CHR ''E'') \<and>
       (digits_text (tl ex) \<or>
        ((hd (tl ex) = CHR ''+'' \<or> hd (tl ex) = CHR ''-'') \<and> tl ex \<noteq> []
         \<and> digits_text (tl (tl ex))))))"

definition literal_value_is :: "string \<Rightarrow> string \<Rightarrow> string \<Rightarrow> nat \<Rightarrow> bool" where
  \<comment> \<open>The digits of the integer and the fraction part, times ten to the exponent less
      the number of the fraction digits, is \<open>m\<close>.\<close>
  "literal_value_is ip fr ex m =
     (int m * 10 ^ nat (int (length (tl fr)) - exponent_value ex)
      = int (nat_of_digits (ip @ tl fr)) * 10 ^ nat (exponent_value ex - int (length (tl fr))))"

definition number_text :: "string \<Rightarrow> int \<Rightarrow> bool" where
  "number_text s n =
     (\<exists>negative ip fr ex m.
        s = (if negative then ''-'' else []) @ ip @ fr @ ex
        \<and> int_part_text ip \<and> fraction_text fr \<and> exponent_text ex
        \<and> literal_value_is ip fr ex m
        \<and> n = (if negative then - int m else int m)
        \<and> is_Number n)"

inductive value_text :: "string \<Rightarrow> json \<Rightarrow> bool"
  and elements_text :: "string \<Rightarrow> json list \<Rightarrow> bool"
  and members_text :: "string \<Rightarrow> (nat list \<times> json) list \<Rightarrow> bool"
where
  text_null: "value_text ''null'' JNull"
| text_true: "value_text ''true'' (JBool True)"
| text_false: "value_text ''false'' (JBool False)"
| text_number: "number_text s n \<Longrightarrow> value_text s (JNumber n)"
| text_string: "chars_text b us \<Longrightarrow> value_text (DQUOTE # b @ [DQUOTE]) (JString us)"
| text_empty_array: "ws_text w \<Longrightarrow> value_text (CHR ''['' # w @ '']'') (JArray [])"
| text_array: "elements_text e vs \<Longrightarrow> value_text (CHR ''['' # e @ '']'') (JArray vs)"
| text_empty_object: "ws_text w \<Longrightarrow> value_text (CHR ''{'' # w @ ''}'') (JObject [])"
| text_object: "members_text m ms \<Longrightarrow> value_text (CHR ''{'' # m @ ''}'') (JObject ms)"
| text_element:
    "ws_text w1 \<Longrightarrow> value_text t v \<Longrightarrow> ws_text w2 \<Longrightarrow> elements_text (w1 @ t @ w2) [v]"
| text_elements:
    "ws_text w1 \<Longrightarrow> value_text t v \<Longrightarrow> ws_text w2 \<Longrightarrow> elements_text r vs \<Longrightarrow>
     elements_text (w1 @ t @ w2 @ CHR '','' # r) (v # vs)"
| text_member:
    "ws_text w1 \<Longrightarrow> chars_text b k \<Longrightarrow> ws_text w2 \<Longrightarrow> ws_text w3 \<Longrightarrow> value_text t v \<Longrightarrow>
     ws_text w4 \<Longrightarrow>
     members_text (w1 @ DQUOTE # b @ DQUOTE # w2 @ CHR '':'' # w3 @ t @ w4) [(k, v)]"
| text_members:
    "ws_text w1 \<Longrightarrow> chars_text b k \<Longrightarrow> ws_text w2 \<Longrightarrow> ws_text w3 \<Longrightarrow> value_text t v \<Longrightarrow>
     ws_text w4 \<Longrightarrow> members_text r ms \<Longrightarrow>
     members_text (w1 @ DQUOTE # b @ DQUOTE # w2 @ CHR '':'' # w3 @ t @ w4 @ CHR '','' # r)
       ((k, v) # ms)"

definition json_text :: "string \<Rightarrow> json \<Rightarrow> bool" where
  \<comment> \<open>A JSON text: a value between white space.\<close>
  "json_text s v = (\<exists>w1 t w2. s = w1 @ t @ w2 \<and> ws_text w1 \<and> value_text t v \<and> ws_text w2)"

subsection \<open>Devices of the proofs\<close>

definition follows_value :: "string \<Rightarrow> bool" where
  \<comment> \<open>What can follow a value in a text: the end, white space, a comma or a closing
      bracket.\<close>
  "follows_value rest =
     (case rest of
        [] \<Rightarrow> True
      | c # _ \<Rightarrow> is_json_ws c \<or> c = CHR '','' \<or> c = CHR '']'' \<or> c = CHR ''}'')"

definition starts_value :: "string \<Rightarrow> bool" where
  "starts_value t =
     (case t of
        [] \<Rightarrow> False
      | c # _ \<Rightarrow> \<not> is_json_ws c \<and> c \<noteq> CHR '']'' \<and> c \<noteq> CHR ''}'')"

definition ends_number :: "string \<Rightarrow> bool" where
  "ends_number rest = (case rest of [] \<Rightarrow> True | c # _ \<Rightarrow> \<not> is_digit c \<and> c \<noteq> CHR ''.'' \<and> c \<noteq> CHR ''e'' \<and> c \<noteq> CHR ''E'')"

definition starts_nondigit :: "string \<Rightarrow> bool" where
  "starts_nondigit x = (case x of [] \<Rightarrow> True | c # _ \<Rightarrow> \<not> is_digit c)"

definition stored_example :: string where
  \<open>stored_example =
     ''[ {"completed": true, "id":1e2 ,"description":"t'' @ BACKSLASH # ''u0065a"} ]''\<close>


section \<open>Properties of the store\<close>

subsection \<open>Rounding\<close>

lemma bit_length_le: "n < 2 ^ k \<Longrightarrow> bit_length n \<le> k"
proof (induction k arbitrary: n)
  case 0
  then show ?case by (subst bit_length.simps) simp
next
  case (Suc k)
  then have "n div 2 < 2 ^ k" by simp
  then have "bit_length (n div 2) \<le> k" by (rule Suc.IH)
  then show ?case by (subst bit_length.simps) simp
qed

lemma bit_length_eq: "2 ^ k \<le> n \<Longrightarrow> n < 2 ^ Suc k \<Longrightarrow> bit_length n = Suc k"
proof (induction k arbitrary: n)
  case 0
  then have "n = 1" by simp
  then show ?case by (simp add: bit_length.simps)
next
  case (Suc k)
  then have "2 ^ k \<le> n div 2" "n div 2 < 2 ^ Suc k" by simp_all
  then have "bit_length (n div 2) = Suc k" by (rule Suc.IH)
  moreover have "0 < n" by (rule less_le_trans [OF _ Suc.prems(1)]) simp
  ultimately show ?case by (subst bit_length.simps) simp
qed

lemma round_binary64_exact: "n \<le> 2 ^ 53 \<Longrightarrow> round_binary64 n = n"
proof (cases "n = 2 ^ 53")
  case True
  have "bit_length n = Suc 53" unfolding True by (rule bit_length_eq) simp_all
  then show ?thesis
    by (simp add: round_binary64_def Let_def True)
next
  case False
  assume "n \<le> 2 ^ 53"
  with False have "n < 2 ^ 53" by simp
  then have "bit_length n \<le> 53" by (rule bit_length_le)
  then show ?thesis by (simp add: round_binary64_def)
qed

lemma toNumber_exact: "\<bar>x\<bar> \<le> 2 ^ 53 \<Longrightarrow> toNumber x = x"
proof -
  assume a: "\<bar>x\<bar> \<le> 2 ^ 53"
  have "nat \<bar>x\<bar> \<le> 2 ^ 53"
    using a by (simp add: nat_le_iff)
  then have "round_binary64 (nat \<bar>x\<bar>) = nat \<bar>x\<bar>" by (rule round_binary64_exact)
  then show ?thesis by (cases "x < 0") (simp_all add: toNumber_def)
qed

lemma Number_increment_exact:
  "- (2 ^ 53) \<le> m \<Longrightarrow> m < 2 ^ 53 \<Longrightarrow> Number_increment m = m + 1"
  unfolding Number_increment_def by (rule toNumber_exact) simp

lemma Number_increment_2_53: "Number_increment 9007199254740992 = 9007199254740992"
proof -
  have "bit_length 9007199254740993 = Suc 53" by (rule bit_length_eq) simp_all
  then have "round_binary64 9007199254740993 = 9007199254740992"
    by (simp add: round_binary64_def Let_def)
  then show ?thesis by (simp add: Number_increment_def toNumber_def)
qed

subsection \<open>Identifiers\<close>

lemma fold_max_Max: "fold max xs (x::int) = Max (set (x # xs))"
  by (metis Max.set_eq_fold)

lemma Math_max_Some: "xs \<noteq> [] \<Longrightarrow> Math_max xs = Some (Max (set xs))"
  by (cases xs) (simp_all add: fold_max_Max del: set_simps)

lemma addTask_on_addTask:
  "addTask_on argument_limit d s =
     (if argument_limit < length (tasks s) then Inl RangeError else Inr (addTask d s))"
  by (cases "tasks s") (simp_all add: addTask_on_def addTask_def spread_Math_max_def)

lemma tasks_addTask:
  assumes "tasks s \<noteq> [] \<Longrightarrow>
             - (2 ^ 53) \<le> Max (id' ` set (tasks s)) \<and> Max (id' ` set (tasks s)) < 2 ^ 53"
  shows "addTask d s =
     s\<lparr>tasks := tasks s @
         [\<lparr> id' = (if tasks s = [] then 1 else Max (id' ` set (tasks s)) + 1),
            description = d, completed = False \<rparr>]\<rparr>"
proof (cases "tasks s = []")
  case True
  then show ?thesis by (simp add: addTask_def)
next
  case False
  with assms have "Number_increment (Max (id' ` set (tasks s))) = Max (id' ` set (tasks s)) + 1"
    by (intro Number_increment_exact) simp_all
  with False show ?thesis by (simp add: addTask_def Math_max_Some)
qed

lemma new_id_fresh:
  "t \<in> set (tasks s) \<Longrightarrow> id' t < (if tasks s = [] then 1 else Max (id' ` set (tasks s)) + 1)"
  by (auto simp: less_Suc_eq_le intro!: Max_ge le_imp_less_Suc)

lemma filter_new_id:
  "filter (\<lambda>t. id' t \<noteq> (if tasks s = [] then 1 else Max (id' ` set (tasks s)) + 1)) (tasks s)
   = tasks s"
  using new_id_fresh [of _ s] by (intro filter_True) force

text \<open>
  Claim C3, as stated, fails: the sum is a sum of binary64. On the collection whose
  one id is \<open>2^53\<close> the new id is \<open>2^53\<close> again, not the greatest id plus one.
\<close>

theorem addTask_next_id_counterexample:
  "addTask_on 65535 ''b'' store_2_53 =
     Inr (store_2_53\<lparr>tasks :=
            [\<lparr> id' = 9007199254740992, description = ''a'', completed = False \<rparr>,
             \<lparr> id' = 9007199254740992, description = ''b'', completed = False \<rparr>]\<rparr>)
   \<and> Max (id' ` set (tasks store_2_53)) + 1 = 9007199254740993"
  by (simp add: addTask_on_addTask addTask_def store_2_53_def Number_increment_2_53)

text \<open>
  Claim C3, amended. For every collection within the engine's bound on arguments whose
  greatest id \<open>m\<close> satisfies \<open>-2^53 \<le> m < 2^53\<close>, and every description, \<open>addTask\<close>
  appends exactly one task, not completed, whose id is \<open>m + 1\<close>, or 1 on the empty
  collection, and touches nothing else. The id is computed from the collection at hand
  and not from a counter: after that task (which holds the greatest id) is removed,
  the next \<open>addTask\<close> hands out the same id once more.
\<close>

theorem addTask_appends_next_id:
  assumes "length (tasks s) \<le> argument_limit"
    and "tasks s \<noteq> [] \<Longrightarrow>
           - (2 ^ 53) \<le> Max (id' ` set (tasks s)) \<and> Max (id' ` set (tasks s)) < 2 ^ 53"
  shows "addTask_on argument_limit d s =
           Inr (s\<lparr>tasks := tasks s @
                  [\<lparr> id' = (if tasks s = [] then 1 else Max (id' ` set (tasks s)) + 1),
                     description = d, completed = False \<rparr>]\<rparr>)
         \<and> addTask_on argument_limit b
             (removeTask (if tasks s = [] then 1 else Max (id' ` set (tasks s)) + 1)
                (s\<lparr>tasks := tasks s @
                  [\<lparr> id' = (if tasks s = [] then 1 else Max (id' ` set (tasks s)) + 1),
                     description = a, completed = False \<rparr>]\<rparr>))
           = Inr (s\<lparr>tasks := tasks s @
                  [\<lparr> id' = (if tasks s = [] then 1 else Max (id' ` set (tasks s)) + 1),
                     description = b, completed = False \<rparr>]\<rparr>)"
proof -
  have r: "removeTask (if tasks s = [] then 1 else Max (id' ` set (tasks s)) + 1)
                (s\<lparr>tasks := tasks s @
                  [\<lparr> id' = (if tasks s = [] then 1 else Max (id' ` set (tasks s)) + 1),
                     description = a, completed = False \<rparr>]\<rparr>) = s"
    by (simp add: removeTask_def filter_new_id)
  show ?thesis
    unfolding r using assms(1) tasks_addTask [OF assms(2)] by (simp add: addTask_on_addTask)
qed

theorem addTask_appends_next_id_witness:
  "length (tasks two_tasks) \<le> 65535
   \<and> - (2 ^ 53) \<le> Max (id' ` set (tasks two_tasks))
   \<and> Max (id' ` set (tasks two_tasks)) < 2 ^ 53
   \<and> addTask_on 65535 ''c'' two_tasks =
       Inr (two_tasks\<lparr>tasks := tasks two_tasks @
              [\<lparr> id' = 8, description = ''c'', completed = False \<rparr>]\<rparr>)"
proof -
  have l: "length (tasks two_tasks) \<le> 65535" by (simp add: two_tasks_def)
  have m: "Max (id' ` set (tasks two_tasks)) = 7" by (simp add: two_tasks_def)
  have h: "tasks two_tasks \<noteq> [] \<Longrightarrow>
     - (2 ^ 53) \<le> Max (id' ` set (tasks two_tasks)) \<and> Max (id' ` set (tasks two_tasks)) < 2 ^ 53"
    by (simp add: m)
  have n: "tasks two_tasks \<noteq> []" by (simp add: two_tasks_def)
  show ?thesis
    using addTask_appends_next_id [OF l h, of "''c''" "''c''" "''c''"] l n by (simp add: m)
qed

subsection \<open>update_first\<close>

lemma map_update_first:
  "(\<And>x. g (f x) = g x) \<Longrightarrow> map g (update_first p f xs) = map g xs"
  by (induction xs) auto

lemma length_update_first: "length (update_first p f xs) = length xs"
  by (induction xs) auto

lemma update_first_absent: "\<forall>x\<in>set xs. \<not> p x \<Longrightarrow> update_first p f xs = xs"
  by (induction xs) auto

lemma update_first_twice:
  "(\<And>x. p (f x) = p x) \<Longrightarrow> (\<And>x. f (f x) = x) \<Longrightarrow> update_first p f (update_first p f xs) = xs"
  by (induction xs) auto

subsection \<open>Distinct ids\<close>

lemma ids_perform_other:
  "\<not> (\<exists>d. a = AddTask d) \<Longrightarrow> distinct (map id' (tasks s)) \<Longrightarrow> distinct (map id' (tasks (perform a s)))"
  by (cases a)
     (simp_all add: removeTask_def toggleTaskCompletion_def updateTaskDescription_def
        setSearchTerm_def setSortCriteria_def toggleAllTasksCompletion_def clearCompletedTasks_def
        map_update_first distinct_map_filter comp_def)

lemma ids_subset_perform_other:
  "\<not> (\<exists>d. a = AddTask d) \<Longrightarrow> set (map id' (tasks (perform a s))) \<subseteq> set (map id' (tasks s))"
  by (cases a)
     (auto simp: removeTask_def toggleTaskCompletion_def updateTaskDescription_def
        setSearchTerm_def setSortCriteria_def toggleAllTasksCompletion_def clearCompletedTasks_def
        map_update_first comp_def)

lemma perform_on_other: "\<not> (\<exists>d. a = AddTask d) \<Longrightarrow> perform_on L a s = perform a s"
  by (cases a) (simp_all add: perform_on_def)

lemma ids_step:
  assumes d: "distinct (map id' (tasks s))"
    and r: "\<forall>i\<in>set (map id' (tasks s)). - (2 ^ 53) \<le> i \<and> i + (n + 1) < 2 ^ 53"
    and n: "0 \<le> n" "n + 1 < 2 ^ 53"
  shows "distinct (map id' (tasks (perform_on L a s)))
       \<and> (\<forall>i\<in>set (map id' (tasks (perform_on L a s))). - (2 ^ 53) \<le> i \<and> i + n < 2 ^ 53)"
proof (cases "\<exists>descr. a = AddTask descr")
  case False
  then show ?thesis
    using ids_perform_other [OF False d] ids_subset_perform_other [OF False, of s] r n
    by (fastforce simp: perform_on_other)
next
  case True
  then obtain descr where a: "a = AddTask descr" by blast
  show ?thesis
  proof (cases "L < length (tasks s)")
    case True
    then show ?thesis using d r n by (fastforce simp: a perform_on_def addTask_on_addTask)
  next
    case False
    let ?m = "Max (id' ` set (tasks s))"
    let ?new = "if tasks s = [] then 1 else ?m + 1"
    have m: "tasks s \<noteq> [] \<Longrightarrow> - (2 ^ 53) \<le> ?m \<and> ?m + (n + 1) < 2 ^ 53"
    proof -
      assume "tasks s \<noteq> []"
      then have "?m \<in> id' ` set (tasks s)" by (intro Max_in) simp_all
      then show ?thesis using r by auto
    qed
    have b: "tasks s \<noteq> [] \<Longrightarrow> - (2 ^ 53) \<le> ?m \<and> ?m < 2 ^ 53"
    proof -
      assume "tasks s \<noteq> []"
      from m [OF this] n show ?thesis by linarith
    qed
    have t: "tasks (perform_on L a s) = tasks s @ [\<lparr> id' = ?new, description = descr, completed = False \<rparr>]"
      using False tasks_addTask [OF b, of descr] by (simp add: a perform_on_def addTask_on_addTask)
    have f: "?new \<notin> id' ` set (tasks s)"
      using new_id_fresh [of _ s] by force
    have nb: "- (2 ^ 53) \<le> ?new \<and> ?new + n < 2 ^ 53"
    proof (cases "tasks s = []")
      case True
      then show ?thesis using n by simp
    next
      case False
      from m [OF this] n False show ?thesis by simp
    qed
    have old: "\<forall>i\<in>id' ` set (tasks s). - (2 ^ 53) \<le> i \<and> i + n < 2 ^ 53"
    proof
      fix i assume "i \<in> id' ` set (tasks s)"
      then have "- (2 ^ 53) \<le> i \<and> i + (n + 1) < 2 ^ 53" using r by auto
      then show "- (2 ^ 53) \<le> i \<and> i + n < 2 ^ 53" by simp
    qed
    have "distinct (map id' (tasks s @ [\<lparr> id' = ?new, description = descr, completed = False \<rparr>]))"
      using d f by simp
    moreover have "\<forall>i\<in>set (map id' (tasks s @ [\<lparr> id' = ?new, description = descr, completed = False \<rparr>])).
        - (2 ^ 53) \<le> i \<and> i + n < 2 ^ 53"
      using old nb by simp
    ultimately show ?thesis unfolding t by blast
  qed
qed

lemma ids_run:
  "distinct (map id' (tasks s)) \<Longrightarrow>
   \<forall>i\<in>set (map id' (tasks s)). - (2 ^ 53) \<le> i \<and> i + int (length acts) < 2 ^ 53 \<Longrightarrow>
   int (length acts) < 2 ^ 53 \<Longrightarrow>
   distinct (map id' (tasks (fold (perform_on L) acts s)))"
proof (induction acts arbitrary: s)
  case Nil
  then show ?case by simp
next
  case (Cons a acts)
  have "distinct (map id' (tasks (perform_on L a s)))
       \<and> (\<forall>i\<in>set (map id' (tasks (perform_on L a s))).
             - (2 ^ 53) \<le> i \<and> i + int (length acts) < 2 ^ 53)"
    using Cons.prems by (intro ids_step) (simp_all add: add.commute)
  then show ?case using Cons.IH [of "perform_on L a s"] Cons.prems(3) by simp
qed

text \<open>
  Claim C4, as stated, fails: from the collection whose one id is \<open>2^53\<close>, \<open>addTask\<close>
  leads to a collection that holds this id twice.
\<close>

theorem ids_distinct_counterexample:
  "distinct (map id' (tasks store_2_53))
   \<and> \<not> distinct (map id' (tasks (fold (perform_on 65535) [AddTask ''b''] store_2_53)))
   \<and> \<not> distinct (map id' (tasks (fold perform [AddTask ''b''] store_2_53)))"
  by (simp add: perform_on_def addTask_on_addTask addTask_def store_2_53_def Number_increment_2_53)

text \<open>
  Claim C4, amended. From a collection whose ids are pairwise distinct and lie in
  \<open>-2^53 \<le> id < 2^53 - n\<close>, every sequence of \<open>n < 2^53\<close> actions of the store, \<open>addTask\<close>
  among them in any interleaving, leads to a collection with pairwise distinct ids
  (a call of \<open>addTask\<close> that the engine refuses leaves the collection as it was).
\<close>

theorem ids_stay_distinct:
  assumes "distinct (map id' (tasks s))"
    and "list_all (\<lambda>t. - (2 ^ 53) \<le> id' t \<and> id' t + int (length acts) < 2 ^ 53) (tasks s)"
    and "int (length acts) < 2 ^ 53"
  shows "distinct (map id' (tasks (fold (perform_on argument_limit) acts s)))"
  using assms by (intro ids_run) (simp_all add: list_all_iff)

theorem ids_stay_distinct_witness:
  "distinct (map id' (tasks two_tasks))
   \<and> list_all (\<lambda>t. - (2 ^ 53) \<le> id' t \<and> id' t + 4 < 2 ^ 53) (tasks two_tasks)
   \<and> map id' (tasks (fold (perform_on 65535)
        [AddTask ''c'', AddTask ''d'', RemoveTask 9, AddTask ''e''] two_tasks)) = [7, 3, 8, 9]
   \<and> distinct (map id' (tasks (fold (perform_on 65535)
        [AddTask ''c'', AddTask ''d'', RemoveTask 9, AddTask ''e''] two_tasks)))"
proof -
  have d: "distinct (map id' (tasks two_tasks))" by (simp add: two_tasks_def)
  have r: "list_all (\<lambda>t. - (2 ^ 53) \<le> id' t
             \<and> id' t + int (length [AddTask ''c'', AddTask ''d'', RemoveTask 9, AddTask ''e'']) < 2 ^ 53)
           (tasks two_tasks)"
    by (simp add: two_tasks_def)
  have l: "int (length [AddTask ''c'', AddTask ''d'', RemoveTask 9, AddTask ''e'']) < 2 ^ 53"
    by simp
  have i8: "Number_increment 7 = 8" and i9: "Number_increment 8 = 9"
    by (simp_all add: Number_increment_exact)
  have m: "map id' (tasks (fold (perform_on 65535)
        [AddTask ''c'', AddTask ''d'', RemoveTask 9, AddTask ''e''] two_tasks)) = [7, 3, 8, 9]"
    by (simp add: perform_on_def addTask_on_addTask addTask_def removeTask_def two_tasks_def i8 i9)
  show ?thesis
    using ids_stay_distinct [OF d r l, of 65535] d r m by simp
qed

subsection \<open>Completion of all tasks, and of one\<close>

text \<open>
  Claim C7. \<open>toggleAllTasksCompletion flag\<close> keeps the length of the collection, gives
  every task the completion \<open>flag\<close>, keeps the ids and the descriptions in their order
  and leaves the search term and the sort criterion alone; applied with \<open>true\<close> a second
  time it changes nothing.
\<close>

theorem toggleAllTasksCompletion_sets_all:
  "length (tasks (toggleAllTasksCompletion flag s)) = length (tasks s)
   \<and> map completed (tasks (toggleAllTasksCompletion flag s)) = replicate (length (tasks s)) flag
   \<and> map id' (tasks (toggleAllTasksCompletion flag s)) = map id' (tasks s)
   \<and> map description (tasks (toggleAllTasksCompletion flag s)) = map description (tasks s)
   \<and> searchTerm (toggleAllTasksCompletion flag s) = searchTerm s
   \<and> sortCriteria (toggleAllTasksCompletion flag s) = sortCriteria s
   \<and> toggleAllTasksCompletion True (toggleAllTasksCompletion True s) = toggleAllTasksCompletion True s"
  by (simp add: toggleAllTasksCompletion_def comp_def map_replicate_const)

text \<open>
  Claim C10. \<open>toggleTaskCompletion\<close> is an involution on the state of the store: for
  every state and every id, in the collection or not, two applications in a row give
  back the state they started from (collection, search term and sort criterion).
\<close>

theorem toggleTaskCompletion_involution:
  "toggleTaskCompletion i (toggleTaskCompletion i s) = s"
  by (simp add: toggleTaskCompletion_def update_first_twice)

subsection \<open>Search and order\<close>

lemma includes_str_sublist: "includes_str s t \<longleftrightarrow> sublist t s"
  by (induction s) (auto simp: sublist_Cons_right)

lemma sublist_map_iff:
  "sublist (map f t) (map f d) \<longleftrightarrow> (\<exists>w. sublist w d \<and> map f w = map f t)"
proof
  assume "sublist (map f t) (map f d)"
  then obtain ps ss where "map f d = ps @ map f t @ ss"
    by (auto simp: sublist_def)
  then obtain p w r where "d = p @ w @ r" "map f w = map f t"
    by (auto simp: map_eq_append_conv append_eq_map_conv)
  then show "\<exists>w. sublist w d \<and> map f w = map f t"
    by (auto simp: sublist_def)
next
  assume "\<exists>w. sublist w d \<and> map f w = map f t"
  then obtain w where w: "sublist w d" "map f w = map f t" by blast
  from w(1) obtain ps ss where "d = ps @ w @ ss" by (auto simp: sublist_def)
  then have "map f d = map f ps @ map f t @ map f ss" using w(2) by simp
  then show "sublist (map f t) (map f d)" unfolding sublist_def by blast
qed

lemma equal_ignoring_case_map:
  "equal_ignoring_case u v \<longleftrightarrow> toLowerCase u = toLowerCase v"
  unfolding equal_ignoring_case_def toLowerCase_def
proof (induction u arbitrary: v)
  case Nil
  then show ?case by auto
next
  case (Cons a u)
  then show ?case by (cases v) auto
qed

lemma includes_lower_iff:
  "includes_str (toLowerCase d) (toLowerCase term) \<longleftrightarrow> contains_ignoring_case d term"
  by (simp add: includes_str_sublist contains_ignoring_case_def equal_ignoring_case_map)
     (simp add: toLowerCase_def sublist_map_iff)

lemma insertBy_cF_True:
  "completed x \<Longrightarrow> insertBy cmp_completedFirst x ys = x # ys"
  by (cases ys) (auto simp: cmp_completedFirst_def)

lemma insertBy_cF_False:
  "\<not> completed x \<Longrightarrow> insertBy cmp_completedFirst x (filter completed ys @ filter (\<lambda>t. \<not> completed t) zs)
     = filter completed ys @ x # filter (\<lambda>t. \<not> completed t) zs"
proof (induction ys)
  case Nil
  then show ?case by (cases "filter (\<lambda>t. \<not> completed t) zs") (auto simp: cmp_completedFirst_def filter_eq_Cons_iff)
next
  case (Cons y ys)
  then show ?case by (auto simp: cmp_completedFirst_def)
qed

lemma sort_completedFirst:
  "sort_js cmp_completedFirst xs = filter completed xs @ filter (\<lambda>t. \<not> completed t) xs"
  unfolding sort_js_def
  by (induction xs) (simp_all add: insertBy_cF_True insertBy_cF_False)

lemma insertBy_pF_True:
  "\<not> completed x \<Longrightarrow> insertBy cmp_pendingFirst x ys = x # ys"
  by (cases ys) (auto simp: cmp_pendingFirst_def)

lemma insertBy_pF_False:
  "completed x \<Longrightarrow> insertBy cmp_pendingFirst x (filter (\<lambda>t. \<not> completed t) ys @ filter completed zs)
     = filter (\<lambda>t. \<not> completed t) ys @ x # filter completed zs"
proof (induction ys)
  case Nil
  then show ?case by (cases "filter completed zs") (auto simp: cmp_pendingFirst_def filter_eq_Cons_iff)
next
  case (Cons y ys)
  then show ?case by (auto simp: cmp_pendingFirst_def)
qed

lemma sort_pendingFirst:
  "sort_js cmp_pendingFirst xs = filter (\<lambda>t. \<not> completed t) xs @ filter completed xs"
  unfolding sort_js_def
  by (induction xs) (simp_all add: insertBy_pF_True insertBy_pF_False)

lemma allTasks_pipeline: "allTasks s = spec_allTasks s"
  by (simp add: allTasks_def spec_allTasks_def spec_search_def spec_reorder_def Let_def
      sort_completedFirst sort_pendingFirst includes_lower_iff)



lemma filter_spec_reorder:
  "filter (\<lambda>t. completed t) (spec_reorder c ts) = filter (\<lambda>t. completed t) ts"
  "filter (\<lambda>t. \<not> completed t) (spec_reorder c ts) = filter (\<lambda>t. \<not> completed t) ts"
  by (simp_all add: spec_reorder_def)

text \<open>
  Claim C6. \<open>completedTasks\<close> is the subsequence of the completed tasks of the view
  \<open>allTasks\<close> and \<open>pendingTasks\<close> the subsequence of its pending tasks; both are taken
  from the searched and ordered view and not from the raw collection, so that they
  are the completed and the pending tasks among those the search keeps, in the order of
  the collection.
\<close>

theorem completed_pending_from_allTasks:
  "completedTasks s = filter (\<lambda>t. completed t) (allTasks s)
   \<and> pendingTasks s = filter (\<lambda>t. \<not> completed t) (allTasks s)
   \<and> completedTasks s = filter (\<lambda>t. completed t) (spec_search (searchTerm s) (tasks s))
   \<and> pendingTasks s = filter (\<lambda>t. \<not> completed t) (spec_search (searchTerm s) (tasks s))"
  by (simp add: completedTasks_def pendingTasks_def allTasks_pipeline spec_allTasks_def
      filter_spec_reorder)

subsection \<open>Blank descriptions\<close>

lemma all_dropWhile: "(\<forall>x\<in>set (dropWhile P s). P x) \<longleftrightarrow> (\<forall>x\<in>set s. P x)"
  by (induction s) auto

lemma trim_Nil_iff: "trim s = [] \<longleftrightarrow> whitespace_only s"
  by (simp add: trim_def whitespace_only_def list_all_iff all_dropWhile)

lemma trim_not_blank: "trim s \<noteq> [] \<Longrightarrow> \<not> whitespace_only (trim s)"
proof -
  assume a: "trim s \<noteq> []"
  let ?u = "dropWhile isWhiteSpace s"
  let ?v = "dropWhile isWhiteSpace (rev ?u)"
  from a have "?v \<noteq> []" by (simp add: trim_def)
  then have "\<not> isWhiteSpace (hd ?v)" by (rule hd_dropWhile)
  moreover have "hd ?v \<in> set (trim s)" using \<open>?v \<noteq> []\<close> by (simp add: trim_def)
  ultimately show ?thesis by (auto simp: whitespace_only_def list_all_iff)
qed

lemma in_update_first:
  "t \<in> set (update_first p f xs) \<Longrightarrow> t \<in> set xs \<or> (\<exists>x\<in>set xs. t = f x)"
  by (induction xs) (auto split: if_splits)

lemma no_blank_update_first:
  "list_all (\<lambda>t. \<not> whitespace_only (description t)) xs \<Longrightarrow>
   (\<And>x. \<not> whitespace_only (description (f x))) \<Longrightarrow>
   list_all (\<lambda>t. \<not> whitespace_only (description t)) (update_first p f xs)"
  by (induction xs) auto

lemma no_blank_update_first_same:
  "list_all (\<lambda>t. \<not> whitespace_only (description t)) xs \<Longrightarrow>
   (\<And>x. description (f x) = description x) \<Longrightarrow>
   list_all (\<lambda>t. \<not> whitespace_only (description t)) (update_first p f xs)"
  by (induction xs) auto

lemma no_blank_filter:
  "list_all (\<lambda>t. \<not> whitespace_only (description t)) xs \<Longrightarrow>
   list_all (\<lambda>t. \<not> whitespace_only (description t)) (filter q xs)"
  by (induction xs) auto

text \<open>
  Claim C2, as stated, fails: the store checks neither action. \<open>addTask\<close> with a
  blank text stores it, and \<open>updateTaskDescription\<close> with a blank text stores the
  empty string.
\<close>

theorem blank_description_counterexample:
  "\<not> no_blank (fold perform [AddTask '' ''] empty_store)
   \<and> \<not> no_blank (fold perform [AddTask ''a'', UpdateTaskDescription 1 ''  ''] empty_store)"
  by (simp add: no_blank_def empty_store_def addTask_def updateTaskDescription_def trim_def
      whitespace_only_def isWhiteSpace_def)

text \<open>
  Claim C2, amended. In every state the component reaches from the empty collection,
  through its handlers \<open>handleAddTask\<close> and \<open>saveEdit\<close>, which refuse a text that is empty
  after trimming before they call \<open>addTask\<close> and \<open>updateTaskDescription\<close>, and through
  the other actions of the store, no description is empty or white space only.
\<close>

theorem ui_reachable_no_blank:
  "ui_reachable s \<Longrightarrow> no_blank s"
proof (induction rule: ui_reachable.induct)
  case ui_init
  show ?case by (simp add: no_blank_def empty_store_def)
next
  case (ui_add s str)
  then show ?case
    by (simp add: no_blank_def handleAddTask_def addTask_def trim_Nil_iff)
next
  case (ui_edit s editing str)
  then show ?case
    by (auto simp: no_blank_def saveEdit_def updateTaskDescription_def trim_not_blank
        intro!: no_blank_update_first split: option.splits)
next
  case (ui_remove s i)
  then show ?case by (simp add: no_blank_def removeTask_def no_blank_filter)
next
  case (ui_toggle s i)
  then show ?case
    by (simp add: no_blank_def toggleTaskCompletion_def no_blank_update_first_same)
next
  case (ui_toggle_all s b)
  then show ?case
    by (simp add: no_blank_def toggleAllTasksCompletion_def list_all_iff)
next
  case (ui_clear s)
  then show ?case by (simp add: no_blank_def clearCompletedTasks_def no_blank_filter)
next
  case (ui_search s tm)
  then show ?case by (simp add: no_blank_def setSearchTerm_def)
next
  case (ui_sort s criteria)
  then show ?case by (simp add: no_blank_def setSortCriteria_def)
qed

theorem ui_reachable_no_blank_witness:
  "ui_reachable (saveEdit (Some 1) '' tea '' (handleAddTask ''milk'' empty_store))
   \<and> no_blank (saveEdit (Some 1) '' tea '' (handleAddTask ''milk'' empty_store))
   \<and> tasks (saveEdit (Some 1) '' tea '' (handleAddTask ''milk'' empty_store))
       = [\<lparr> id' = 1, description = ''tea'', completed = False \<rparr>]"
proof -
  have r: "ui_reachable (saveEdit (Some 1) '' tea '' (handleAddTask ''milk'' empty_store))"
    by (intro ui_reachable.intros)
  have "tasks (saveEdit (Some 1) '' tea '' (handleAddTask ''milk'' empty_store))
       = [\<lparr> id' = 1, description = ''tea'', completed = False \<rparr>]"
    by (simp add: saveEdit_def handleAddTask_def empty_store_def addTask_def
        updateTaskDescription_def trim_def isWhiteSpace_def)
  with r ui_reachable_no_blank [OF r] show ?thesis by simp
qed

section \<open>Properties of the persistence\<close>

subsection \<open>Strings are read back\<close>

lemma hex_value_hex_digit: "n < 16 \<Longrightarrow> hex_value (hex_digit n) = Some n"
  by (simp add: hex_value_def hex_digit_def Let_def)

lemma unicode_escape_low:
  "(of_char c :: nat) < 32 \<Longrightarrow>
   unicode_escape (CHR ''0'') (CHR ''0'') (hex_digit (of_char c div 16)) (hex_digit (of_char c mod 16))
     = Inr (of_char c)"
proof -
  assume a: "(of_char c :: nat) < 32"
  have 1: "hex_value (hex_digit (of_char c div 16)) = Some (of_char c div 16)"
    using a by (intro hex_value_hex_digit) simp
  have 2: "hex_value (hex_digit (of_char c mod 16)) = Some (of_char c mod 16)"
    by (intro hex_value_hex_digit) simp
  have 3: "hex_value (CHR ''0'') = Some 0" by (simp add: hex_value_def)
  show ?thesis using a by (simp add: unicode_escape_def 1 2 3)
qed

lemma parse_chars_escape_char:
  "parse_chars (escape_char c @ rest) = cons_unit (of_char c) (parse_chars rest)"
  by (auto simp: escape_char_def simple_escape_def unicode_escape_low)

lemma parse_chars_escaped:
  "parse_chars (concat (map escape_char s) @ DQUOTE # rest) = Inr (units s, rest)"
  by (induction s) (simp_all add: parse_chars_escape_char cons_unit_def units_def)


subsection \<open>Integers are read back\<close>

lemma char_of_eq_iff_nat: "k < 256 \<Longrightarrow> char_of (k::nat) = c \<longleftrightarrow> k = of_char c"
  by (auto simp: of_char_of)

lemma is_digit_char_of: "k < 10 \<Longrightarrow> is_digit (char_of (48 + k :: nat))"
  by (simp add: is_digit_def)

lemma digits_all: "list_all is_digit (digits n)"
proof (induction n rule: digits.induct)
  case (1 n)
  then show ?case
    by (subst digits.simps) (simp add: is_digit_char_of)
qed

lemma digits_not_Nil: "digits n \<noteq> []"
  by (subst digits.simps) simp

lemma nat_of_digits_snoc:
  "nat_of_digits (ds @ [d]) = 10 * nat_of_digits ds + (of_char d - 48)"
  by (simp add: nat_of_digits_def)

lemma nat_of_digits_digits: "nat_of_digits (digits n) = n"
proof (induction n rule: digits.induct)
  case (1 n)
  show ?case
  proof (cases "n < 10")
    case True
    then show ?thesis by (subst digits.simps) (simp add: nat_of_digits_def)
  next
    case False
    with 1 show ?thesis
      by (subst digits.simps) (simp add: nat_of_digits_snoc)
  qed
qed

lemma hd_digits_zero: "hd (digits n) = CHR ''0'' \<longleftrightarrow> n = 0"
proof (induction n rule: digits.induct)
  case (1 n)
  show ?case
  proof (cases "n < 10")
    case True
    then show ?thesis by (subst digits.simps) (simp add: char_of_eq_iff_nat)
  next
    case False
    with 1 show ?thesis
      by (subst digits.simps) (simp add: digits_not_Nil)
  qed
qed

lemma digits_0: "digits 0 = ''0''"
  by (subst digits.simps) (simp add: char_of_eq_iff_nat)

lemma takeWhile_digits:
  "list_all is_digit ds \<Longrightarrow> ends_number rest \<Longrightarrow>
   takeWhile is_digit (ds @ rest) = ds \<and> dropWhile is_digit (ds @ rest) = rest"
  by (induction ds) (auto simp: ends_number_def split: list.splits)

lemma parse_fraction_end: "ends_number rest \<Longrightarrow> parse_fraction rest = Inr ([], rest)"
  by (auto simp: parse_fraction_def ends_number_def split: list.splits)

lemma parse_exponent_end: "ends_number rest \<Longrightarrow> parse_exponent rest = Inr ([], rest)"
  by (auto simp: parse_exponent_def ends_number_def split: list.splits)

lemma parse_unsigned_digits:
  assumes "ends_number rest"
  shows "parse_unsigned neg (digits n @ rest)
         = Inr (JNumber (if neg then - int n else int n), rest)"
proof -
  obtain d ds where d: "digits n = d # ds"
    using digits_not_Nil [of n] by (cases "digits n") auto
  have all: "is_digit d" "list_all is_digit ds"
    using digits_all [of n] d by auto
  show ?thesis
  proof (cases "n = 0")
    case True
    then show ?thesis using assms
      by (simp add: digits_0 parse_unsigned_def is_digit_def parse_fraction_end parse_exponent_end
          nat_of_digits_def literal_integer_def exponent_value_def)
  next
    case False
    then have "d \<noteq> CHR ''0''" using hd_digits_zero [of n] d by auto
    moreover have "nat_of_digits (d # ds) = n" using nat_of_digits_digits [of n] d by simp
    ultimately show ?thesis using assms all
      by (simp add: d parse_unsigned_def takeWhile_digits parse_fraction_end parse_exponent_end
          literal_integer_def exponent_value_def)
  qed
qed

lemma hd_digits_not_minus: "hd (digits n) \<noteq> CHR ''-''"
  using digits_all [of n] digits_not_Nil [of n]
  by (cases "digits n") (auto simp: is_digit_def)

lemma parse_number_toString:
  assumes "ends_number rest"
  shows "parse_number (Number_toString n @ rest) = Inr (JNumber n, rest)"
proof (cases "n < 0")
  case True
  then show ?thesis
    using parse_unsigned_digits [OF assms, of True "nat (- n)"]
    by (simp add: parse_number_def Number_toString_def)
next
  case False
  obtain d ds where d: "digits (nat n) = d # ds"
    using digits_not_Nil [of "nat n"] by (cases "digits (nat n)") auto
  have "d \<noteq> CHR ''-''" using hd_digits_not_minus [of "nat n"] d by simp
  then show ?thesis
    using False parse_unsigned_digits [OF assms, of False "nat n"]
    by (simp add: parse_number_def Number_toString_def d)
qed

subsection \<open>Tasks and arrays of tasks are read back\<close>

lemma ends_number_simps [simp]:
  "ends_number (CHR '','' # r)" "ends_number (CHR ''}'' # r)" "ends_number []"
  by (simp_all add: ends_number_def is_digit_def)

lemma skip_ws_Cons: "\<not> is_json_ws c \<Longrightarrow> skip_ws (c # cs) = c # cs"
  by (simp add: skip_ws_def)

lemma Number_toString_Cons:
  "\<exists>c cs. Number_toString n = c # cs \<and> (c = CHR ''-'' \<or> is_digit c)"
proof (cases "n < 0")
  case True
  then show ?thesis by (simp add: Number_toString_def)
next
  case False
  then show ?thesis
    using digits_all [of "nat n"] digits_not_Nil [of "nat n"]
    by (cases "digits (nat n)") (auto simp: Number_toString_def)
qed

lemma parse_value_number_start:
  assumes "c = CHR ''-'' \<or> is_digit c"
  shows "parse_value (c # cs) = parse_number (c # cs)"
proof -
  have ne: "c \<noteq> DQUOTE" "c \<noteq> CHR ''[''" "c \<noteq> CHR ''{''"
    "c \<noteq> CHR ''t''" "c \<noteq> CHR ''f''" "c \<noteq> CHR ''n''"
    using assms by (auto simp: is_digit_def)
  show ?thesis
    by (subst parse_value.simps) (simp add: ne)
qed

lemma not_ws_number_start: "c = CHR ''-'' \<or> is_digit c \<Longrightarrow> \<not> is_json_ws c"
  by (auto simp: is_digit_def is_json_ws_def)

lemma parse_value_Number:
  assumes "ends_number rest"
  shows "parse_value (Number_toString n @ rest) = Inr (JNumber n, rest)"
    and "skip_ws (Number_toString n @ rest) = Number_toString n @ rest"
proof -
  obtain c cs where c: "Number_toString n = c # cs" "c = CHR ''-'' \<or> is_digit c"
    using Number_toString_Cons by blast
  have "parse_value (Number_toString n @ rest) = parse_number (Number_toString n @ rest)"
    using c by (simp add: parse_value_number_start)
  then show "parse_value (Number_toString n @ rest) = Inr (JNumber n, rest)"
    using assms by (simp add: parse_number_toString)
  show "skip_ws (Number_toString n @ rest) = Number_toString n @ rest"
    using c by (simp add: skip_ws_Cons not_ws_number_start)
qed

lemma parse_value_String:
  "parse_value (QuoteJSONString d @ rest) = Inr (JString (units d), rest)"
  "skip_ws (QuoteJSONString d @ rest) = QuoteJSONString d @ rest"
  by (subst parse_value.simps)
     (simp_all add: QuoteJSONString_def parse_chars_escaped skip_ws_Cons is_json_ws_def)

lemma parse_value_Bool:
  "parse_value ((if b then ''true'' else ''false'') @ rest) = Inr (JBool b, rest)"
  "skip_ws ((if b then ''true'' else ''false'') @ rest) = (if b then ''true'' else ''false'') @ rest"
  by (cases b; subst parse_value.simps; simp)
     (cases b; simp add: skip_ws_Cons is_json_ws_def)

lemma length_QuoteJSONString: "0 < length (QuoteJSONString k)"
  by (simp add: QuoteJSONString_def)

lemma parse_members_last:
  assumes "parse_value (V @ CHR ''}'' # rest) = Inr (v, CHR ''}'' # rest)"
    and "skip_ws (V @ CHR ''}'' # rest) = V @ CHR ''}'' # rest"
  shows "parse_members (QuoteJSONString k @ CHR '':'' # V @ CHR ''}'' # rest) = Inr ([(units k, v)], rest)"
proof -
  have q: "QuoteJSONString k @ CHR '':'' # V @ CHR ''}'' # rest
           = DQUOTE # (concat (map escape_char k) @ DQUOTE # CHR '':'' # V @ CHR ''}'' # rest)"
    by (simp add: QuoteJSONString_def)
  show ?thesis
    unfolding q
    by (subst parse_members.simps)
       (simp add: parse_chars_escaped skip_ws_Cons is_json_ws_def assms)
qed

lemma parse_members_more:
  assumes "parse_value (V @ CHR '','' # M) = Inr (v, CHR '','' # M)"
    and "skip_ws (V @ CHR '','' # M) = V @ CHR '','' # M"
    and "skip_ws M = M"
    and "parse_members M = Inr (ms, rest)"
  shows "parse_members (QuoteJSONString k @ CHR '':'' # V @ CHR '','' # M) = Inr ((units k, v) # ms, rest)"
proof -
  have q: "QuoteJSONString k @ CHR '':'' # V @ CHR '','' # M
           = DQUOTE # (concat (map escape_char k) @ DQUOTE # CHR '':'' # V @ CHR '','' # M)"
    by (simp add: QuoteJSONString_def)
  show ?thesis
    unfolding q
    by (subst parse_members.simps)
       (simp add: parse_chars_escaped skip_ws_Cons is_json_ws_def assms)
qed

lemma stringify_Task_shape:
  \<open>stringify_Task t @ rest =
     CHR ''{'' #
       (QuoteJSONString ''id'' @ CHR '':'' # Number_toString (id' t) @ CHR '','' #
         (QuoteJSONString ''description'' @ CHR '':'' # QuoteJSONString (description t) @ CHR '','' #
           (QuoteJSONString ''completed'' @ CHR '':'' #
              (if completed t then ''true'' else ''false'') @ CHR ''}'' # rest)))\<close>
  by (simp add: stringify_Task_def QuoteJSONString_def escape_char_def)

lemma skip_ws_Quote: "skip_ws (QuoteJSONString k @ r) = QuoteJSONString k @ r"
  by (simp add: QuoteJSONString_def skip_ws_Cons is_json_ws_def)

lemma parse_members_Task:
  "parse_members
     (QuoteJSONString ''id'' @ CHR '':'' # Number_toString (id' t) @ CHR '','' #
         (QuoteJSONString ''description'' @ CHR '':'' # QuoteJSONString (description t) @ CHR '','' #
           (QuoteJSONString ''completed'' @ CHR '':'' #
              (if completed t then ''true'' else ''false'') @ CHR ''}'' # rest)))
   = Inr ([(units ''id'', JNumber (id' t)),
           (units ''description'', JString (units (description t))),
           (units ''completed'', JBool (completed t))], rest)"
  by (intro parse_members_more parse_members_last parse_value_Number parse_value_String
        parse_value_Bool skip_ws_Quote ends_number_simps)

lemma parse_value_object:
  "skip_ws (DQUOTE # ds) = DQUOTE # ds \<Longrightarrow>
   parse_value (CHR ''{'' # DQUOTE # ds) =
     (case parse_members (DQUOTE # ds) of Inl e \<Rightarrow> Inl e | Inr (ms, r) \<Rightarrow> Inr (JObject ms, r))"
  by (subst parse_value.simps) simp

lemma parse_value_Task:
  "parse_value (stringify_Task t @ rest) = Inr (Task_json t, rest)"
proof -
  define M where "M = QuoteJSONString ''id'' @ CHR '':'' # Number_toString (id' t) @ CHR '','' #
         (QuoteJSONString ''description'' @ CHR '':'' # QuoteJSONString (description t) @ CHR '','' #
           (QuoteJSONString ''completed'' @ CHR '':'' #
              (if completed t then ''true'' else ''false'') @ CHR ''}'' # rest))"
  have m: "parse_members M = Inr ([(units ''id'', JNumber (id' t)),
           (units ''description'', JString (units (description t))),
           (units ''completed'', JBool (completed t))], rest)"
    unfolding M_def by (rule parse_members_Task)
  have w: "skip_ws M = M" unfolding M_def by (rule skip_ws_Quote)
  obtain ds where ds: "M = DQUOTE # ds" by (simp add: M_def QuoteJSONString_def)
  have "stringify_Task t @ rest = CHR ''{'' # M"
    unfolding M_def by (rule stringify_Task_shape)
  then show ?thesis
    using parse_value_object [of ds] w m by (simp add: ds Task_json_def)
qed

lemma stringify_Task_Cons: "\<exists>cs. stringify_Task t = CHR ''{'' # cs"
  by (simp add: stringify_Task_def)

lemma skip_ws_Task: "skip_ws (stringify_Task t @ rest) = stringify_Task t @ rest"
  using stringify_Task_Cons [of t] by (auto simp: skip_ws_Cons is_json_ws_def)

lemma parse_elements_last:
  assumes "parse_value (V @ CHR '']'' # rest) = Inr (v, CHR '']'' # rest)" and "V \<noteq> []"
  shows "parse_elements (V @ CHR '']'' # rest) = Inr ([v], rest)"
  using assms by (subst parse_elements.simps) (simp add: skip_ws_Cons is_json_ws_def)

lemma parse_elements_more:
  assumes "parse_value (V @ CHR '','' # R) = Inr (v, CHR '','' # R)" and "V \<noteq> []"
    and "skip_ws R = R" and "parse_elements R = Inr (vs, rest)"
  shows "parse_elements (V @ CHR '','' # R) = Inr (v # vs, rest)"
  using assms by (subst parse_elements.simps) (simp add: skip_ws_Cons is_json_ws_def)

lemma stringify_Task_not_Nil: "stringify_Task t \<noteq> []"
  by (simp add: stringify_Task_def)

lemma skip_ws_join:
  "skip_ws (join_commas (map stringify_Task (t # ts)) @ r) = join_commas (map stringify_Task (t # ts)) @ r"
  using skip_ws_Task [of t] by (cases ts) simp_all

lemma parse_elements_Tasks:
  "parse_elements (join_commas (map stringify_Task (t # ts)) @ CHR '']'' # rest)
   = Inr (map Task_json (t # ts), rest)"
proof (induction ts arbitrary: t)
  case Nil
  show ?case
    using parse_elements_last [OF parse_value_Task stringify_Task_not_Nil, of t rest] by simp
next
  case (Cons u ts)
  define R where "R = join_commas (map stringify_Task (u # ts)) @ CHR '']'' # rest"
  have "parse_elements (stringify_Task t @ CHR '','' # R) = Inr (Task_json t # map Task_json (u # ts), rest)"
    by (rule parse_elements_more [OF parse_value_Task stringify_Task_not_Nil])
       (simp_all only: R_def skip_ws_join Cons.IH)
  then show ?case by (simp add: R_def)
qed

lemma parse_value_array:
  "skip_ws (CHR ''{'' # ds) = CHR ''{'' # ds \<Longrightarrow>
   parse_value (CHR ''['' # CHR ''{'' # ds) =
     (case parse_elements (CHR ''{'' # ds) of Inl e \<Rightarrow> Inl e | Inr (vs, r) \<Rightarrow> Inr (JArray vs, r))"
  by (subst parse_value.simps) simp

lemma JSON_parse_stringify: "JSON_parse (JSON_stringify ts) = Inr (Tasks_json ts)"
proof (cases ts)
  case Nil
  then show ?thesis
    by (simp add: JSON_parse_def JSON_stringify_def Tasks_json_def skip_ws_def is_json_ws_def
        parse_value.simps)
next
  case (Cons t us)
  define R where "R = join_commas (map stringify_Task (t # us)) @ '']''"
  have w: "skip_ws R = R" unfolding R_def by (rule skip_ws_join)
  have e: "parse_elements R = Inr (map Task_json (t # us), [])"
    unfolding R_def by (rule parse_elements_Tasks)
  obtain ds where ds: "R = CHR ''{'' # ds"
    using stringify_Task_Cons [of t] by (cases us) (auto simp: R_def)
  have "parse_value (CHR ''['' # R) = Inr (JArray (map Task_json (t # us)), [])"
    using parse_value_array [of ds] w e by (simp add: ds)
  moreover have "JSON_stringify ts = CHR ''['' # R"
    by (simp add: JSON_stringify_def R_def Cons)
  ultimately show ?thesis
    by (simp add: JSON_parse_def Tasks_json_def Cons skip_ws_def is_json_ws_def)
qed

subsection \<open>The length tests of the parser never fail\<close>

lemma length_skip_ws: "length (skip_ws s) \<le> length s"
  by (simp add: skip_ws_def length_dropWhile_le)

lemma skip_ws_Cons_shorter: "skip_ws r = c # cs \<Longrightarrow> length (skip_ws cs) < length r"
  using length_skip_ws [of r] length_skip_ws [of cs] by simp

lemma parse_chars_shorter: "parse_chars s = Inr (k, r) \<Longrightarrow> length r < length s"
proof (induction s arbitrary: k r rule: parse_chars.induct)
  case 1
  then show ?case by simp
next
  case (2 c cs)
  then show ?case
    by (fastforce simp: cons_unit_def split: if_splits list.splits sum.splits option.splits prod.splits)
qed

lemma parse_fraction_shorter: "parse_fraction s = Inr (f, r) \<Longrightarrow> length r \<le> length s"
  by (auto simp: parse_fraction_def length_dropWhile_le le_SucI split: list.splits if_splits)

lemma parse_exponent_shorter: "parse_exponent s = Inr (f, r) \<Longrightarrow> length r \<le> length s"
  by (auto simp: parse_exponent_def parse_sign_def length_dropWhile_le le_SucI
      split: list.splits if_splits prod.splits)

lemma parse_unsigned_shorter: "parse_unsigned neg s = Inr (v, r) \<Longrightarrow> length r < length s"
proof -
  assume a: "parse_unsigned neg s = Inr (v, r)"
  then obtain d ds where s: "s = d # ds" by (cases s) (auto simp: parse_unsigned_def)
  define s2 where "s2 = (if d = CHR ''0'' then ds else dropWhile is_digit ds)"
  have l: "length s2 \<le> length ds" by (simp add: s2_def length_dropWhile_le)
  from a obtain fr s3 ex where "parse_fraction s2 = Inr (fr, s3)" "parse_exponent s3 = Inr (ex, r)"
    by (auto simp: parse_unsigned_def s s2_def split: if_splits sum.splits prod.splits option.splits)
  then show ?thesis
    using l parse_fraction_shorter [of s2 fr s3] parse_exponent_shorter [of s3 ex r] by (simp add: s)
qed

lemma parse_number_shorter: "parse_number s = Inr (v, r) \<Longrightarrow> length r < length s"
  by (auto simp: parse_number_def split: list.splits if_splits dest: parse_unsigned_shorter)

lemma parse_elements_shorter: "parse_elements s = Inr (vs, r) \<Longrightarrow> length r < length s"
proof (induction s arbitrary: vs r rule: length_induct)
  case (1 s)
  from "1.prems" obtain v r0 where v: "parse_value s = Inr (v, r0)" "length r0 < length s"
    by (subst (asm) parse_elements.simps) (auto split: sum.splits if_splits)
  from "1.prems" v obtain c cs where c: "skip_ws r0 = c # cs"
    by (subst (asm) parse_elements.simps) (auto split: list.splits)
  show ?case
  proof (cases "c = CHR '',''")
    case True
    with "1.prems" v c obtain ws where "parse_elements (skip_ws cs) = Inr (ws, r)"
      by (subst (asm) parse_elements.simps) (auto split: sum.splits)
    moreover have "length (skip_ws cs) < length s"
      using skip_ws_Cons_shorter [OF c] v(2) by simp
    ultimately show ?thesis using "1.IH" by force
  next
    case False
    with "1.prems" v c have "r = cs"
      by (subst (asm) parse_elements.simps) (auto split: if_splits)
    then show ?thesis using length_skip_ws [of r0] c v(2) by simp
  qed
qed

lemma parse_members_shorter: "parse_members s = Inr (ms, r) \<Longrightarrow> length r < length s"
proof (induction s arbitrary: ms r rule: length_induct)
  case (1 s)
  from "1.prems" obtain s0 where s: "s = DQUOTE # s0"
    by (subst (asm) parse_members.simps) (auto split: list.splits if_splits)
  from "1.prems" obtain k r0 c r1 v r2 d ds where
    st: "parse_chars s0 = Inr (k, r0)" "length r0 < length s" "skip_ws r0 = CHR '':'' # r1"
        "parse_value (skip_ws r1) = Inr (v, r2)" "length r2 < length s" "skip_ws r2 = d # ds"
    by (subst (asm) parse_members.simps)
       (auto simp: s split: list.splits sum.splits if_splits)
  have e: "parse_members s = (if d = CHR '','' then
            (case parse_members (skip_ws ds) of
               Inl e \<Rightarrow> Inl e
             | Inr (ms, r') \<Rightarrow> Inr ((k, v) # ms, r'))
          else if d = CHR ''}'' then Inr ([(k, v)], ds)
          else Inl SyntaxError)"
    using st by (subst parse_members.simps) (simp add: s)
  show ?case
  proof (cases "d = CHR '',''")
    case True
    with "1.prems" e obtain ws where "parse_members (skip_ws ds) = Inr (ws, r)"
      by (auto split: sum.splits)
    moreover have "length (skip_ws ds) < length s"
      using skip_ws_Cons_shorter [OF st(6)] st(5) by simp
    ultimately show ?thesis using "1.IH" by force
  next
    case False
    with "1.prems" e have "r = ds" by (auto split: if_splits)
    then show ?thesis using length_skip_ws [of r2] st(5,6) by simp
  qed
qed

lemma parse_value_shorter: "parse_value s = Inr (v, r) \<Longrightarrow> length r < length s"
proof -
  assume a: "parse_value s = Inr (v, r)"
  then obtain c cs where s: "s = c # cs"
    by (subst (asm) parse_value.simps) (auto split: list.splits)
  consider (str) "c = DQUOTE" | (arr) "c = CHR ''[''" | (obj) "c = CHR ''{''"
    | (other) "c \<noteq> DQUOTE" "c \<noteq> CHR ''[''" "c \<noteq> CHR ''{''"
    by blast
  then show ?thesis
  proof cases
    case str
    with a obtain k where "parse_chars cs = Inr (k, r)"
      by (subst (asm) parse_value.simps) (auto simp: s split: sum.splits)
    then show ?thesis using parse_chars_shorter by (fastforce simp: s)
  next
    case arr
    show ?thesis
    proof (cases "skip_ws cs")
      case Nil
      with a arr show ?thesis by (subst (asm) parse_value.simps) (simp add: s)
    next
      case (Cons d ds)
      show ?thesis
      proof (cases "d = CHR '']''")
        case True
        with a arr Cons have "r = ds" by (subst (asm) parse_value.simps) (simp add: s)
        then show ?thesis using length_skip_ws [of cs] Cons by (simp add: s)
      next
        case False
        with a arr Cons obtain vs where "parse_elements (d # ds) = Inr (vs, r)"
          by (subst (asm) parse_value.simps) (auto simp: s split: sum.splits)
        then have "length r < length (d # ds)" by (rule parse_elements_shorter)
        then show ?thesis using length_skip_ws [of cs] Cons by (simp add: s)
      qed
    qed
  next
    case obj
    show ?thesis
    proof (cases "skip_ws cs")
      case Nil
      with a obj show ?thesis by (subst (asm) parse_value.simps) (simp add: s)
    next
      case (Cons d ds)
      show ?thesis
      proof (cases "d = CHR ''}''")
        case True
        with a obj Cons have "r = ds" by (subst (asm) parse_value.simps) (simp add: s)
        then show ?thesis using length_skip_ws [of cs] Cons by (simp add: s)
      next
        case False
        with a obj Cons obtain vs where "parse_members (d # ds) = Inr (vs, r)"
          by (subst (asm) parse_value.simps) (auto simp: s split: sum.splits)
        then have "length r < length (d # ds)" by (rule parse_members_shorter)
        then show ?thesis using length_skip_ws [of cs] Cons by (simp add: s)
      qed
    qed
  next
    case other
    with a have "(take 4 s = ''true'' \<and> r = drop 4 s) \<or> (take 5 s = ''false'' \<and> r = drop 5 s)
        \<or> (take 4 s = ''null'' \<and> r = drop 4 s) \<or> parse_number s = Inr (v, r)"
      by (subst (asm) parse_value.simps) (auto simp: s split: if_splits)
    then show ?thesis
      using parse_number_shorter [of s v r] by (auto simp: s)
  qed
qed

text \<open>
  So the parser is the plain recursive descent: the equations hold without the tests.
\<close>

lemma parse_elements_plain:
  "parse_elements s =
     (case parse_value s of
        Inl e \<Rightarrow> Inl e
      | Inr (v, r) \<Rightarrow>
          (case skip_ws r of
             [] \<Rightarrow> Inl SyntaxError
           | c # cs \<Rightarrow>
               if c = CHR '','' then
                 (case parse_elements (skip_ws cs) of
                    Inl e \<Rightarrow> Inl e
                  | Inr (vs, r') \<Rightarrow> Inr (v # vs, r'))
               else if c = CHR '']'' then Inr ([v], cs)
               else Inl SyntaxError))"
  by (subst parse_elements.simps) (auto split: sum.splits dest: parse_value_shorter)

lemma parse_members_plain:
  "parse_members s =
     (case s of
        [] \<Rightarrow> Inl SyntaxError
      | q # s0 \<Rightarrow>
          if q \<noteq> DQUOTE then Inl SyntaxError
          else
            (case parse_chars s0 of
               Inl e \<Rightarrow> Inl e
             | Inr (k, r0) \<Rightarrow>
                 (case skip_ws r0 of
                    [] \<Rightarrow> Inl SyntaxError
                  | c # r1 \<Rightarrow>
                      if c \<noteq> CHR '':'' then Inl SyntaxError
                      else
                        (case parse_value (skip_ws r1) of
                           Inl e \<Rightarrow> Inl e
                         | Inr (v, r) \<Rightarrow>
                             (case skip_ws r of
                                [] \<Rightarrow> Inl SyntaxError
                              | d # ds \<Rightarrow>
                                  if d = CHR '','' then
                                    (case parse_members (skip_ws ds) of
                                       Inl e \<Rightarrow> Inl e
                                     | Inr (ms, r') \<Rightarrow> Inr ((k, v) # ms, r'))
                                  else if d = CHR ''}'' then Inr ([(k, v)], ds)
                                  else Inl SyntaxError)))))"
proof -
  have 1: "parse_chars s0 = Inr (k, r0) \<Longrightarrow> length r0 < Suc (length s0)" for s0 k r0
    using parse_chars_shorter [of s0 k r0] by simp
  have 2: "skip_ws r0 = c # r1 \<Longrightarrow> parse_chars s0 = Inr (k, r0) \<Longrightarrow>
       parse_value (skip_ws r1) = Inr (v, r) \<Longrightarrow> length r < Suc (length s0)" for s0 k r0 c r1 v r
    using parse_chars_shorter [of s0 k r0] parse_value_shorter [of "skip_ws r1" v r]
      skip_ws_Cons_shorter [of r0 c r1] by simp
  show ?thesis
    by (subst parse_members.simps) (auto split: sum.splits list.splits simp: 1 2)
qed

subsection \<open>Every text of the grammar is read as the value it denotes\<close>

lemma chars_text_parse:
  "chars_text b us \<Longrightarrow> parse_chars (b @ DQUOTE # rest) = Inr (us, rest)"
proof (induction rule: chars_text.induct)
  case chars_end
  show ?case by simp
next
  case (chars_plain c s us)
  then show ?case by (simp add: cons_unit_def)
next
  case (chars_escape e ch s us)
  then have "e \<noteq> CHR ''u''" by (auto simp: simple_escape_def)
  with chars_escape show ?case by (simp add: cons_unit_def)
next
  case (chars_unicode a h3 b h2 c h1 d h0 s us)
  then show ?case by (simp add: cons_unit_def unicode_escape_def)
qed

lemma follows_ends_number: "follows_value rest \<Longrightarrow> ends_number rest"
  by (auto simp: follows_value_def ends_number_def is_json_ws_def is_digit_def split: list.splits)

lemma literal_value_integer:
  assumes "literal_value_is ip fr ex m"
  shows "literal_integer ip fr ex = Some m"
proof -
  let ?M = "nat_of_digits (ip @ tl fr)"
  let ?E = "exponent_value ex - int (length (tl fr))"
  show ?thesis
  proof (cases "0 \<le> ?E")
    case True
    then have "nat (int (length (tl fr)) - exponent_value ex) = 0" by simp
    with assms have "int m = int (?M * 10 ^ nat ?E)"
      by (simp add: literal_value_is_def)
    then have "m = ?M * 10 ^ nat ?E" by (simp only: int_int_eq)
    with True show ?thesis by (simp add: literal_integer_def Let_def)
  next
    case False
    then have "nat ?E = 0" by simp
    with assms have "int (m * 10 ^ nat (- ?E)) = int ?M"
      by (simp add: literal_value_is_def)
    then have e: "m * 10 ^ nat (- ?E) = ?M" by (simp only: int_int_eq)
    have "?M mod 10 ^ nat (- ?E) = 0" "?M div 10 ^ nat (- ?E) = m"
      unfolding e [symmetric] by simp_all
    with False show ?thesis by (simp add: literal_integer_def Let_def)
  qed
qed

lemma takeWhile_digits_nondigit:
  "list_all is_digit ds \<Longrightarrow> starts_nondigit x \<Longrightarrow>
   takeWhile is_digit (ds @ x) = ds \<and> dropWhile is_digit (ds @ x) = x"
  by (induction ds) (auto simp: starts_nondigit_def split: list.splits)

lemma parse_fraction_text:
  assumes "fraction_text fr" and "starts_nondigit x" and "fr = [] \<Longrightarrow> x = [] \<or> hd x \<noteq> CHR ''.''"
  shows "parse_fraction (fr @ x) = Inr (fr, x)"
proof (cases "fr = []")
  case True
  with assms(3) show ?thesis by (cases x) (auto simp: parse_fraction_def)
next
  case False
  with assms(1) obtain fs where fr: "fr = CHR ''.'' # fs" "fs \<noteq> []" "list_all is_digit fs"
    by (cases fr) (auto simp: fraction_text_def digits_text_def)
  show ?thesis
    using takeWhile_digits_nondigit [OF fr(3) assms(2)] fr(2)
    by (simp add: fr(1) parse_fraction_def)
qed

lemma parse_exponent_text:
  assumes "exponent_text ex" and "starts_nondigit x"
    and "ex = [] \<Longrightarrow> x = [] \<or> (hd x \<noteq> CHR ''e'' \<and> hd x \<noteq> CHR ''E'')"
  shows "parse_exponent (ex @ x) = Inr (ex, x)"
proof (cases "ex = []")
  case True
  with assms(3) show ?thesis by (cases x) (auto simp: parse_exponent_def)
next
  case False
  then obtain c r where ex: "ex = c # r" by (cases ex) auto
  with assms(1) have c: "c = CHR ''e'' \<or> c = CHR ''E''"
    by (simp add: exponent_text_def)
  from assms(1) ex consider
      (plain) "r \<noteq> []" "list_all is_digit r"
    | (signed) sg es where "r = sg # es" "sg = CHR ''+'' \<or> sg = CHR ''-''" "es \<noteq> []" "list_all is_digit es"
    by (cases r) (auto simp: exponent_text_def digits_text_def)
  then show ?thesis
  proof cases
    case plain
    then obtain d ds where r: "r = d # ds" by (cases r) auto
    with plain have "d \<noteq> CHR ''+''" "d \<noteq> CHR ''-''" by (auto simp: is_digit_def)
    then have "parse_sign (r @ x) = ([], r @ x)" by (simp add: parse_sign_def r)
    then show ?thesis
      using takeWhile_digits_nondigit [OF plain(2) assms(2)] plain(1) c
      by (auto simp: ex parse_exponent_def)
  next
    case signed
    then have "parse_sign (r @ x) = ([sg], es @ x)" by (auto simp: parse_sign_def)
    then show ?thesis
      using takeWhile_digits_nondigit [OF signed(4) assms(2)] signed(1,3) c
      by (auto simp: ex parse_exponent_def)
  qed
qed

lemma starts_nondigit_parts:
  "fraction_text fr \<Longrightarrow> exponent_text ex \<Longrightarrow> ends_number rest \<Longrightarrow> starts_nondigit (fr @ ex @ rest)"
  "exponent_text ex \<Longrightarrow> ends_number rest \<Longrightarrow> starts_nondigit (ex @ rest)"
  "ends_number rest \<Longrightarrow> starts_nondigit rest"
  by (cases fr; cases ex; cases rest;
      auto simp: starts_nondigit_def fraction_text_def exponent_text_def ends_number_def is_digit_def)+

lemma no_point_after:
  "exponent_text ex \<Longrightarrow> ends_number rest \<Longrightarrow> ex @ rest = [] \<or> hd (ex @ rest) \<noteq> CHR ''.''"
  by (cases ex; cases rest) (auto simp: exponent_text_def ends_number_def)

lemma no_e_after:
  "ends_number rest \<Longrightarrow> rest = [] \<or> (hd rest \<noteq> CHR ''e'' \<and> hd rest \<noteq> CHR ''E'')"
  by (cases rest) (auto simp: ends_number_def)

lemma parse_unsigned_text:
  assumes ip: "int_part_text ip" and fr: "fraction_text fr" and ex: "exponent_text ex"
    and v: "literal_value_is ip fr ex m" and rest: "ends_number rest"
  shows "parse_unsigned negative (ip @ fr @ ex @ rest)
         = Inr (JNumber (if negative then - int m else int m), rest)"
proof -
  have f: "parse_fraction (fr @ ex @ rest) = Inr (fr, ex @ rest)"
    using parse_fraction_text [OF fr starts_nondigit_parts(2) [OF ex rest]] no_point_after [OF ex rest]
    by simp
  have e: "parse_exponent (ex @ rest) = Inr (ex, rest)"
    using parse_exponent_text [OF ex starts_nondigit_parts(3) [OF rest]] no_e_after [OF rest]
    by simp
  have l: "literal_integer ip fr ex = Some m" using v by (rule literal_value_integer)
  show ?thesis
  proof (cases "ip = ''0''")
    case True
    then show ?thesis using l by (simp add: parse_unsigned_def is_digit_def f e)
  next
    case False
    with ip obtain d ds where d: "ip = d # ds" "d \<noteq> CHR ''0''" "is_digit d" "list_all is_digit ds"
      by (cases ip) (auto simp: int_part_text_def digits_text_def)
    show ?thesis
      using takeWhile_digits_nondigit [OF d(4) starts_nondigit_parts(1) [OF fr ex rest]] d(2,3)
      by (simp add: d(1) parse_unsigned_def f e l [unfolded d(1)])
  qed
qed

lemma int_part_start:
  "int_part_text ip \<Longrightarrow> \<exists>d ds. ip = d # ds \<and> is_digit d"
  by (cases ip) (auto simp: int_part_text_def digits_text_def is_digit_def)

lemma number_text_parse:
  assumes "number_text s n" and "ends_number rest"
  shows "parse_value (s @ rest) = Inr (JNumber n, rest)" and "starts_value s"
proof -
  from assms(1) obtain negative ip fr ex m where
    s: "s = (if negative then ''-'' else []) @ ip @ fr @ ex"
    and p: "int_part_text ip" "fraction_text fr" "exponent_text ex" "literal_value_is ip fr ex m"
    and n: "n = (if negative then - int m else int m)"
    unfolding number_text_def by blast
  obtain d ds where d: "ip = d # ds" "is_digit d" using int_part_start [OF p(1)] by blast
  have u: "parse_unsigned negative (ip @ fr @ ex @ rest) = Inr (JNumber n, rest)"
    unfolding n by (rule parse_unsigned_text [OF p assms(2)])
  have dm: "d \<noteq> CHR ''-''" using d(2) by (auto simp: is_digit_def)
  have "parse_number (s @ rest) = Inr (JNumber n, rest)"
    using u dm by (cases negative) (simp_all add: s parse_number_def d(1))
  moreover have "parse_value (s @ rest) = parse_number (s @ rest)"
    using d(2) by (cases negative) (simp_all add: s d(1) parse_value_number_start)
  ultimately show "parse_value (s @ rest) = Inr (JNumber n, rest)" by simp
  show "starts_value s"
    using d(2) by (cases negative) (auto simp: s d(1) starts_value_def is_json_ws_def is_digit_def)
qed

lemma skip_ws_ws: "ws_text w \<Longrightarrow> skip_ws (w @ x) = skip_ws x"
  by (induction w) (simp_all add: ws_text_def skip_ws_def)

lemma skip_ws_value: "starts_value t \<Longrightarrow> skip_ws (t @ x) = t @ x"
  by (cases t) (simp_all add: starts_value_def skip_ws_def)

lemma follows_value_simps [simp]:
  "follows_value []" "follows_value (CHR '','' # r)" "follows_value (CHR '']'' # r)"
  "follows_value (CHR ''}'' # r)"
  by (simp_all add: follows_value_def)

lemma follows_value_ws: "ws_text w \<Longrightarrow> follows_value x \<Longrightarrow> follows_value (w @ x)"
  by (cases w) (simp_all add: ws_text_def follows_value_def)

lemma skip_ws_ws_Cons: "ws_text w \<Longrightarrow> \<not> is_json_ws c \<Longrightarrow> skip_ws (w @ c # x) = c # x"
  by (simp add: skip_ws_ws skip_ws_Cons)

lemma parse_value_literals:
  "parse_value (CHR ''n'' # CHR ''u'' # CHR ''l'' # CHR ''l'' # rest) = Inr (JNull, rest)"
  "parse_value (CHR ''t'' # CHR ''r'' # CHR ''u'' # CHR ''e'' # rest) = Inr (JBool True, rest)"
  "parse_value (CHR ''f'' # CHR ''a'' # CHR ''l'' # CHR ''s'' # CHR ''e'' # rest)
   = Inr (JBool False, rest)"
  by (subst parse_value.simps, simp)+

lemma parse_value_string:
  "chars_text b us \<Longrightarrow> parse_value (DQUOTE # b @ DQUOTE # rest) = Inr (JString us, rest)"
  by (subst parse_value.simps) (simp add: chars_text_parse)

lemma parse_value_array_empty:
  "skip_ws cs = CHR '']'' # ds \<Longrightarrow> parse_value (CHR ''['' # cs) = Inr (JArray [], ds)"
  by (subst parse_value.simps) simp

lemma parse_value_array_elements:
  "skip_ws cs = d # ds \<Longrightarrow> d \<noteq> CHR '']'' \<Longrightarrow> parse_elements (d # ds) = Inr (vs, r) \<Longrightarrow>
   parse_value (CHR ''['' # cs) = Inr (JArray vs, r)"
  by (subst parse_value.simps) simp

lemma parse_value_object_empty:
  "skip_ws cs = CHR ''}'' # ds \<Longrightarrow> parse_value (CHR ''{'' # cs) = Inr (JObject [], ds)"
  by (subst parse_value.simps) simp

lemma parse_value_object_members:
  "skip_ws cs = d # ds \<Longrightarrow> d \<noteq> CHR ''}'' \<Longrightarrow> parse_members (d # ds) = Inr (ms, r) \<Longrightarrow>
   parse_value (CHR ''{'' # cs) = Inr (JObject ms, r)"
  by (subst parse_value.simps) simp

lemma parse_elements_one:
  assumes "parse_value (t @ w2 @ CHR '']'' # rest) = Inr (v, w2 @ CHR '']'' # rest)" and "ws_text w2"
  shows "parse_elements (t @ w2 @ CHR '']'' # rest) = Inr ([v], rest)"
  using assms by (subst parse_elements_plain) (simp add: skip_ws_ws_Cons is_json_ws_def)

lemma parse_elements_next:
  assumes "parse_value (t @ w2 @ CHR '','' # r) = Inr (v, w2 @ CHR '','' # r)" and "ws_text w2"
    and "parse_elements (skip_ws r) = Inr (vs, rest)"
  shows "parse_elements (t @ w2 @ CHR '','' # r) = Inr (v # vs, rest)"
  using assms by (subst parse_elements_plain) (simp add: skip_ws_ws_Cons is_json_ws_def)

lemma parse_members_one:
  assumes "chars_text b k" and "ws_text w2" and "ws_text w3" and "starts_value t" and "ws_text w4"
    and "parse_value (t @ w4 @ CHR ''}'' # rest) = Inr (v, w4 @ CHR ''}'' # rest)"
  shows "parse_members (DQUOTE # b @ DQUOTE # w2 @ CHR '':'' # w3 @ t @ w4 @ CHR ''}'' # rest)
         = Inr ([(k, v)], rest)"
  using assms
  by (subst parse_members_plain)
     (simp add: chars_text_parse skip_ws_ws_Cons skip_ws_Cons skip_ws_ws skip_ws_value
        is_json_ws_def)

lemma parse_members_next:
  assumes "chars_text b k" and "ws_text w2" and "ws_text w3" and "starts_value t" and "ws_text w4"
    and "parse_value (t @ w4 @ CHR '','' # r) = Inr (v, w4 @ CHR '','' # r)"
    and "parse_members (skip_ws r) = Inr (ms, rest)"
  shows "parse_members (DQUOTE # b @ DQUOTE # w2 @ CHR '':'' # w3 @ t @ w4 @ CHR '','' # r)
         = Inr ((k, v) # ms, rest)"
  using assms
  by (subst parse_members_plain)
     (simp add: chars_text_parse skip_ws_ws_Cons skip_ws_Cons skip_ws_ws skip_ws_value
        is_json_ws_def)

lemma text_parse:
  "value_text t v \<Longrightarrow>
     (\<forall>rest. follows_value rest \<longrightarrow> parse_value (t @ rest) = Inr (v, rest)) \<and> starts_value t"
  "elements_text e vs \<Longrightarrow>
     (\<forall>rest. parse_elements (skip_ws (e @ CHR '']'' # rest)) = Inr (vs, rest))
     \<and> (\<forall>x. \<exists>c cs. skip_ws (e @ x) = c # cs \<and> c \<noteq> CHR '']'')"
  "members_text m ms \<Longrightarrow>
     (\<forall>rest. parse_members (skip_ws (m @ CHR ''}'' # rest)) = Inr (ms, rest))
     \<and> (\<forall>x. \<exists>c cs. skip_ws (m @ x) = c # cs \<and> c \<noteq> CHR ''}'')"
proof (induction rule: value_text_elements_text_members_text.inducts)
  case text_null
  show ?case by (simp add: parse_value_literals starts_value_def is_json_ws_def)
next
  case text_true
  show ?case by (simp add: parse_value_literals starts_value_def is_json_ws_def)
next
  case text_false
  show ?case by (simp add: parse_value_literals starts_value_def is_json_ws_def)
next
  case (text_number s n)
  then show ?case
    using number_text_parse(2) [of s n "[]"]
    by (simp add: number_text_parse(1) follows_ends_number)
next
  case (text_string b us)
  then show ?case by (simp add: parse_value_string starts_value_def is_json_ws_def)
next
  case (text_empty_array w)
  then show ?case
    by (simp add: parse_value_array_empty skip_ws_ws_Cons is_json_ws_def starts_value_def)
next
  case (text_array e vs)
  have "parse_value (CHR ''['' # e @ CHR '']'' # rest) = Inr (JArray vs, rest)" for rest
  proof -
    obtain c cs where c: "skip_ws (e @ CHR '']'' # rest) = c # cs" "c \<noteq> CHR '']''"
      using text_array.IH by blast
    moreover have "parse_elements (c # cs) = Inr (vs, rest)"
      using text_array.IH c(1) by metis
    ultimately show ?thesis by (rule parse_value_array_elements)
  qed
  then show ?case by (simp add: starts_value_def is_json_ws_def)
next
  case (text_empty_object w)
  then show ?case
    by (simp add: parse_value_object_empty skip_ws_ws_Cons is_json_ws_def starts_value_def)
next
  case (text_object m ms)
  have "parse_value (CHR ''{'' # m @ CHR ''}'' # rest) = Inr (JObject ms, rest)" for rest
  proof -
    obtain c cs where c: "skip_ws (m @ CHR ''}'' # rest) = c # cs" "c \<noteq> CHR ''}''"
      using text_object.IH by blast
    moreover have "parse_members (c # cs) = Inr (ms, rest)"
      using text_object.IH c(1) by metis
    ultimately show ?thesis by (rule parse_value_object_members)
  qed
  then show ?case by (simp add: starts_value_def is_json_ws_def)
next
  case (text_element w1 t v w2)
  have s: "skip_ws ((w1 @ t @ w2) @ x) = t @ w2 @ x" for x
    using text_element by (simp add: skip_ws_ws skip_ws_value)
  have "parse_value (t @ w2 @ CHR '']'' # rest) = Inr (v, w2 @ CHR '']'' # rest)" for rest
    using text_element by (simp add: follows_value_ws)
  then have "parse_elements (t @ w2 @ CHR '']'' # rest) = Inr ([v], rest)" for rest
    using text_element.hyps(3) by (rule parse_elements_one)
  moreover have "\<exists>c cs. t @ w2 @ x = c # cs \<and> c \<noteq> CHR '']''" for x
    using text_element.IH by (cases t) (auto simp: starts_value_def)
  ultimately show ?case unfolding s by blast
next
  case (text_elements w1 t v w2 r vs)
  have s: "skip_ws ((w1 @ t @ w2 @ CHR '','' # r) @ x) = t @ w2 @ CHR '','' # r @ x" for x
    using text_elements by (simp add: skip_ws_ws skip_ws_value)
  have "parse_value (t @ w2 @ CHR '','' # r @ CHR '']'' # rest)
        = Inr (v, w2 @ CHR '','' # r @ CHR '']'' # rest)" for rest
    using text_elements by (simp add: follows_value_ws)
  then have "parse_elements (t @ w2 @ CHR '','' # r @ CHR '']'' # rest) = Inr (v # vs, rest)" for rest
    using text_elements.hyps(3) text_elements.IH(2) by (intro parse_elements_next) simp_all
  moreover have "\<exists>c cs. t @ w2 @ CHR '','' # r @ x = c # cs \<and> c \<noteq> CHR '']''" for x
    using text_elements.IH(1) by (cases t) (auto simp: starts_value_def)
  ultimately show ?case unfolding s by blast
next
  case (text_member w1 b k w2 w3 t v w4)
  have s: "skip_ws ((w1 @ DQUOTE # b @ DQUOTE # w2 @ CHR '':'' # w3 @ t @ w4) @ x)
      = DQUOTE # b @ DQUOTE # w2 @ CHR '':'' # w3 @ t @ w4 @ x" for x
    using text_member by (simp add: skip_ws_ws_Cons is_json_ws_def)
  have "parse_value (t @ w4 @ CHR ''}'' # rest) = Inr (v, w4 @ CHR ''}'' # rest)" for rest
    using text_member by (simp add: follows_value_ws)
  then have "parse_members (DQUOTE # b @ DQUOTE # w2 @ CHR '':'' # w3 @ t @ w4 @ CHR ''}'' # rest)
         = Inr ([(k, v)], rest)" for rest
    using text_member by (intro parse_members_one) simp_all
  then show ?case unfolding s by simp
next
  case (text_members w1 b k w2 w3 t v w4 r ms)
  have s: "skip_ws ((w1 @ DQUOTE # b @ DQUOTE # w2 @ CHR '':'' # w3 @ t @ w4 @ CHR '','' # r) @ x)
      = DQUOTE # b @ DQUOTE # w2 @ CHR '':'' # w3 @ t @ w4 @ CHR '','' # r @ x" for x
    using text_members by (simp add: skip_ws_ws_Cons is_json_ws_def)
  have "parse_value (t @ w4 @ CHR '','' # r @ CHR ''}'' # rest)
        = Inr (v, w4 @ CHR '','' # r @ CHR ''}'' # rest)" for rest
    using text_members by (simp add: follows_value_ws)
  then have "parse_members (DQUOTE # b @ DQUOTE # w2 @ CHR '':'' # w3 @ t @ w4 @ CHR '','' # r
                @ CHR ''}'' # rest) = Inr ((k, v) # ms, rest)" for rest
    using text_members by (intro parse_members_next) simp_all
  then show ?case unfolding s by simp
qed

lemma json_text_parse: "json_text s v \<Longrightarrow> JSON_parse s = Inr v"
proof -
  assume "json_text s v"
  then obtain w1 t w2 where s: "s = w1 @ t @ w2" and w: "ws_text w1" "ws_text w2"
    and t: "value_text t v"
    unfolding json_text_def by blast
  have "follows_value w2" using w(2) by (cases w2) (simp_all add: ws_text_def follows_value_def)
  then have p: "parse_value (t @ w2) = Inr (v, w2)" using text_parse(1) [OF t] by blast
  have "skip_ws s = t @ w2"
    using w(1) text_parse(1) [OF t] by (simp add: s skip_ws_ws skip_ws_value)
  moreover have "skip_ws w2 = []" using skip_ws_ws [OF w(2), of "[]"] by (simp add: skip_ws_def)
  ultimately show ?thesis by (simp add: JSON_parse_def p)
qed

lemma json_text_not_Nil: "json_text s v \<Longrightarrow> s \<noteq> []"
proof -
  assume "json_text s v"
  then obtain w1 t w2 where s: "s = w1 @ t @ w2" and t: "value_text t v"
    unfolding json_text_def by blast
  have "starts_value t" using text_parse(1) [OF t] by blast
  then have "t \<noteq> []" by (auto simp: starts_value_def)
  then show ?thesis by (simp add: s)
qed

lemma plain_chars_text:
  "list_all (\<lambda>c. c \<noteq> DQUOTE \<and> c \<noteq> BACKSLASH \<and> 32 \<le> (of_char c :: nat)) s \<Longrightarrow>
   chars_text s (units s)"
  by (induction s) (auto simp: units_def intro: chars_text.intros)

subsection \<open>Initialisation, the round trip and the writes\<close>

lemma of_char_less_256: "(of_char c :: nat) < 256"
proof -
  have "(of_char c :: nat) mod 256 < 256" by simp
  then show ?thesis by simp
qed

lemma units_in_alphabet: "list_all (\<lambda>u. u < 256) (units d)"
  by (simp add: units_def list_all_iff of_char_less_256)

lemma char_of_units: "map char_of (units d) = d"
  by (simp add: units_def comp_def)

lemma as_Task_Task_json: "as_Task (Task_json t) = Some t"
proof -
  have k: "units ''description'' \<noteq> units ''id''" "units ''completed'' \<noteq> units ''id''"
    "units ''completed'' \<noteq> units ''description''" "units ''description'' \<noteq> units ''completed''"
    "units ''id'' \<noteq> units ''description''" "units ''id'' \<noteq> units ''completed''"
    by (simp_all add: units_def)
  show ?thesis
    by (simp add: Task_json_def get_property_def k units_in_alphabet char_of_units)
qed

lemma those_map_as_Task: "those (map (as_Task \<circ> Task_json) ts) = Some ts"
  by (induction ts) (simp_all add: as_Task_Task_json)

lemma as_Tasks_Tasks_json: "as_Tasks (Tasks_json ts) = Some ts"
  by (simp add: Tasks_json_def those_map_as_Task)

lemma JSON_parse_empty_array: "JSON_parse ''[]'' = Inr (JArray [])"
  by (simp add: JSON_parse_def skip_ws_def is_json_ws_def parse_value.simps)

text \<open>
  Claim C1, as stated, fails: nothing catches the exception of \<open>JSON.parse\<close>, and a
  parsed value is taken as it is. Stored text that is not JSON makes the
  initialisation raise \<open>SyntaxError\<close>; stored JSON of another shape, here an object,
  becomes the value of \<open>tasks\<close> instead of the empty collection.
\<close>

theorem useTaskStore_tasks_counterexample:
  \<open>useTaskStore_tasks (Some ''{'') = Inl SyntaxError
   \<and> useTaskStore_tasks (Some ''not json'') = Inl SyntaxError
   \<and> useTaskStore_tasks (Some ''{"id":1}'') = Inr (JObject [(units ''id'', JNumber 1)])\<close>
  by code_simp

text \<open>
  Claim C1, amended. The initialisation yields the empty collection when the item is
  missing or is the empty string, and every stored text that is a well-formed JSON
  array yields the array it denotes, in whatever notation the text is written (white
  space, order of the keys, escapes, notation of the numbers); the texts are those
  over the code units up to U+00FF whose numbers are integers of binary64. In
  particular what \<open>JSON.stringify\<close> writes for an array of tasks yields that array. For
  every other stored text the outcome is the one of \<open>JSON.parse\<close> on that text, its
  error included.
\<close>

theorem useTaskStore_tasks_cases:
  "useTaskStore_tasks None = Inr (JArray [])
   \<and> useTaskStore_tasks (Some []) = Inr (JArray [])
   \<and> (json_text s (JArray vs) \<longrightarrow> useTaskStore_tasks (Some s) = Inr (JArray vs))
   \<and> useTaskStore_tasks (Some (JSON_stringify ts)) = Inr (Tasks_json ts)
   \<and> useTaskStore_tasks (Some (c # cs)) = JSON_parse (c # cs)"
proof -
  have "useTaskStore_tasks (Some s) = Inr (JArray vs)" if "json_text s (JArray vs)"
    using json_text_parse [OF that] json_text_not_Nil [OF that]
    by (simp add: useTaskStore_tasks_def)
  then show ?thesis
    by (simp add: useTaskStore_tasks_def JSON_parse_empty_array JSON_parse_stringify)
       (simp add: JSON_stringify_def)
qed

theorem useTaskStore_tasks_cases_witness:
  "json_text stored_example
     (JArray [JObject [(units ''completed'', JBool True), (units ''id'', JNumber 100),
                       (units ''description'', JString (units ''tea''))]])
   \<and> useTaskStore_tasks (Some stored_example)
       = Inr (JArray [JObject [(units ''completed'', JBool True), (units ''id'', JNumber 100),
                       (units ''description'', JString (units ''tea''))]])
   \<and> as_Tasks (JArray [JObject [(units ''completed'', JBool True), (units ''id'', JNumber 100),
                       (units ''description'', JString (units ''tea''))]])
       = Some [\<lparr> id' = 100, description = ''tea'', completed = True \<rparr>]"
proof -
  have w: "ws_text []" "ws_text '' ''" by (simp_all add: ws_text_def is_json_ws_def)
  have k: "chars_text ''completed'' (units ''completed'')" "chars_text ''id'' (units ''id'')"
    "chars_text ''description'' (units ''description'')"
    by (rule plain_chars_text, simp)+
  have "chars_text (''t'' @ BACKSLASH # ''u0065a'') (of_char (CHR ''t'') # 101 # units ''a'')"
    using chars_plain [OF _ _ _ chars_unicode [of "CHR ''0''" 0 "CHR ''0''" 0 "CHR ''6''" 6
          "CHR ''5''" 5, OF _ _ _ _ plain_chars_text [of "''a''"]], of "CHR ''t''"]
    by (simp add: hex_value_def)
  then have d: "chars_text (''t'' @ BACKSLASH # ''u0065a'') (units ''tea'')"
    by (simp add: units_def)
  have "is_Number 100" by (simp add: is_Number_def toNumber_exact)
  then have "number_text ''1e2'' 100"
    unfolding number_text_def
    by (intro exI [of _ False] exI [of _ "''1''"] exI [of _ "[]"] exI [of _ "''e2''"]
          exI [of _ 100])
       (simp add: int_part_text_def fraction_text_def exponent_text_def digits_text_def
          is_digit_def literal_value_is_def exponent_value_def nat_of_digits_def)
  then have n: "value_text ''1e2'' (JNumber 100)" by (rule text_number)
  have m3: "members_text (DQUOTE # ''description'' @ DQUOTE # CHR '':''
              # DQUOTE # (''t'' @ BACKSLASH # ''u0065a'') @ [DQUOTE])
            [(units ''description'', JString (units ''tea''))]"
    using text_member [OF w(1) k(3) w(1) w(1) text_string [OF d] w(1)] by simp
  have m2: "members_text (DQUOTE # ''id'' @ DQUOTE # CHR '':'' # ''1e2'' @ '' '' @ CHR '','' #
              DQUOTE # ''description'' @ DQUOTE # CHR '':''
              # DQUOTE # (''t'' @ BACKSLASH # ''u0065a'') @ [DQUOTE])
            [(units ''id'', JNumber 100), (units ''description'', JString (units ''tea''))]"
    using text_members [OF w(1) k(2) w(1) w(1) n w(2) m3] by simp
  have m1: "members_text (DQUOTE # ''completed'' @ DQUOTE # CHR '':'' # '' '' @ ''true'' @ CHR '','' #
              '' '' @ DQUOTE # ''id'' @ DQUOTE # CHR '':'' # ''1e2'' @ '' '' @ CHR '','' #
              DQUOTE # ''description'' @ DQUOTE # CHR '':''
              # DQUOTE # (''t'' @ BACKSLASH # ''u0065a'') @ [DQUOTE])
            [(units ''completed'', JBool True), (units ''id'', JNumber 100),
             (units ''description'', JString (units ''tea''))]"
    using text_members [OF w(1) k(1) w(1) w(2) text_true w(1)
        text_members [OF w(2) k(2) w(1) w(1) n w(2) m3]] by simp
  have j: "json_text stored_example
     (JArray [JObject [(units ''completed'', JBool True), (units ''id'', JNumber 100),
                       (units ''description'', JString (units ''tea''))]])"
    unfolding json_text_def
    using text_array [OF text_element [OF w(2) text_object [OF m1] w(2)]] w(1)
    by (intro exI [of _ "[]"] exI [of _ stored_example]) (simp add: stored_example_def)
  have a: "as_Tasks (JArray [JObject [(units ''completed'', JBool True), (units ''id'', JNumber 100),
                       (units ''description'', JString (units ''tea''))]])
       = Some [\<lparr> id' = 100, description = ''tea'', completed = True \<rparr>]"
  proof -
    have q: "units ''description'' \<noteq> units ''id''" "units ''completed'' \<noteq> units ''id''"
      "units ''completed'' \<noteq> units ''description''"
      "units ''description'' \<noteq> units ''completed''"
      "units ''id'' \<noteq> units ''description''" "units ''id'' \<noteq> units ''completed''"
      by (simp_all add: units_def)
    show ?thesis
      by (simp add: get_property_def q units_in_alphabet char_of_units)
  qed
  show ?thesis
    using useTaskStore_tasks_cases [of stored_example _ "[]" "CHR ''[''" "[]"] j a by blast
qed

text \<open>
  Claim C9. Round trip of the persistence: for every sequence of tasks, what the
  watcher writes to the storage is read back by the initialisation, without an error,
  as the array of the same tasks: the same length and order, and the id, the description
  and the completion of every element.
\<close>

theorem save_load_round_trip:
  "useTaskStore_tasks (localStorage_tasks (watch_callback ts w)) = Inr (Tasks_json ts)
   \<and> (case useTaskStore_tasks (localStorage_tasks (watch_callback ts w)) of
        Inl e \<Rightarrow> None
      | Inr v \<Rightarrow> as_Tasks v) = Some ts"
  by (simp add: watch_callback_def useTaskStore_tasks_def JSON_parse_stringify as_Tasks_Tasks_json)
     (simp add: JSON_stringify_def)

lemma find_absent: "\<forall>x\<in>set xs. \<not> p x \<Longrightarrow> find p xs = None"
  by (induction xs) auto

text \<open>
  Claim C8, as stated, fails in its last part: \<open>toggleTaskCompletion\<close> and
  \<open>updateTaskDescription\<close> with an id that is not in the collection assign nothing, so the
  watcher does not run and nothing is written; the storage of a new store stays
  without the item.
\<close>

theorem missing_id_write_counterexample:
  "dispatch (ToggleTaskCompletion 999) fresh_world = fresh_world
   \<and> dispatch (UpdateTaskDescription 999 ''tea'') fresh_world = fresh_world
   \<and> setItem_calls fresh_world = 0
   \<and> localStorage_tasks fresh_world = None"
  by (simp add: dispatch_def fresh_world_def empty_store_def toggleTaskCompletion_def
      updateTaskDescription_def)

text \<open>
  Claim C8, amended. For every collection and every id that is not in it, each of
  \<open>removeTask\<close>, \<open>toggleTaskCompletion\<close> and \<open>updateTaskDescription\<close> raises nothing and
  leaves the collection as it is. \<open>removeTask\<close>, which assigns a new array, still makes
  the watcher write the unchanged collection; the other two write nothing and leave the
  whole state, storage included, untouched.
\<close>

theorem missing_id_noop:
  assumes "i \<notin> set (map id' (tasks (state w)))"
  shows "state (dispatch (RemoveTask i) w) = state w
   \<and> localStorage_tasks (dispatch (RemoveTask i) w) = Some (JSON_stringify (tasks (state w)))
   \<and> setItem_calls (dispatch (RemoveTask i) w) = setItem_calls w + 1
   \<and> dispatch (ToggleTaskCompletion i) w = w
   \<and> dispatch (UpdateTaskDescription i newDescription) w = w"
proof -
  have a: "\<forall>task\<in>set (tasks (state w)). id' task \<noteq> i"
    using assms by auto
  have f: "filter (\<lambda>task. id' task \<noteq> i) (tasks (state w)) = tasks (state w)"
    using a by (intro filter_True) simp
  have n: "find (\<lambda>task. id' task = i) (tasks (state w)) = None"
    using a by (intro find_absent) simp
  have u: "update_first (\<lambda>task. id' task = i) g (tasks (state w)) = tasks (state w)" for g
    using a by (intro update_first_absent) simp
  show ?thesis
    by (simp add: dispatch_def removeTask_def toggleTaskCompletion_def updateTaskDescription_def
        watch_callback_def f n u)
qed

theorem missing_id_noop_witness:
  "999 \<notin> set (map id' (tasks (state (dispatch (AddTask ''milk'') fresh_world))))
   \<and> state (dispatch (RemoveTask 999) (dispatch (AddTask ''milk'') fresh_world))
       = state (dispatch (AddTask ''milk'') fresh_world)
   \<and> setItem_calls (dispatch (RemoveTask 999) (dispatch (AddTask ''milk'') fresh_world)) = 2
   \<and> dispatch (ToggleTaskCompletion 999) (dispatch (AddTask ''milk'') fresh_world)
       = dispatch (AddTask ''milk'') fresh_world"
proof -
  have h: "999 \<notin> set (map id' (tasks (state (dispatch (AddTask ''milk'') fresh_world))))"
    by (simp add: dispatch_def fresh_world_def empty_store_def addTask_def watch_callback_def)
  have c: "setItem_calls (dispatch (AddTask ''milk'') fresh_world) = 1"
    by (simp add: dispatch_def fresh_world_def watch_callback_def Let_def)
  show ?thesis
    using missing_id_noop [OF h] h c by simp
qed

end
